theory Spec2Isabelle
  imports Main "HOL-Library.AList"
begin

section \<open>The agency of \<^verbatim>\<open>backend/agency.py\<close>\<close>

text \<open>
  The agency is a registry \<^verbatim>\<open>agents\<close> (a dict from ids to \<^verbatim>\<open>Agent\<close> objects) whose agents
  hold their children as a dict of object references and their parent as an id. The same
  \<^verbatim>\<open>Agent\<close> object is reachable from the registry and from its parent's \<^verbatim>\<open>children\<close>, and
  the code mutates it in place, so objects live in a store (\<open>objs\<close>, addressed by position) and
  both dicts hold addresses. A dict is an association list in insertion order: \<open>map_of\<close> reads
  it, \<open>AList.update\<close> is \<^verbatim>\<open>d[k] = v\<close>, \<open>AList.delete\<close> is \<^verbatim>\<open>del d[k]\<close> on a present key.
  Console output (\<^verbatim>\<open>print\<close>) is left out, except the warnings of the state loader.
\<close>

subsection \<open>Values\<close>

datatype py_error =
    KeyError string
  | AttributeError string
  | RecursionError
  | ValueError string
  | ValidationError string

datatype part =
    SystemPromptPart string
  | UserPromptPart string
  | TextPart string
  | OtherPart string

datatype ModelMessage = ModelRequest "part list" | ModelResponse "part list"

text \<open>
  \<^verbatim>\<open>accessible_tools\<close> is a dict from tool names to booleans everywhere but in
  \<^verbatim>\<open>create_new_agent_helper\<close>, which passes the list \<^verbatim>\<open>[]\<close>; a list has \<^verbatim>\<open>copy\<close> but no \<^verbatim>\<open>get\<close>.
\<close>

datatype tools_val = ToolsDict "(string \<times> bool) list" | ToolsList

fun tools_get :: "tools_val \<Rightarrow> string \<Rightarrow> py_error + bool" where
  "tools_get (ToolsDict d) k = Inr (case map_of d k of None \<Rightarrow> False | Some b \<Rightarrow> b)"
| "tools_get ToolsList k = Inl (AttributeError ''get'')"

type_synonym addr = nat

record Agent =
  name :: string
  agent_id :: string
  provider :: string
  tools :: "string list"
  system_prompt :: string
  message_history :: "ModelMessage list"
  accessible_tools :: tools_val
  mcp_server_ids :: "string list"
  parent_id :: "string option"
  children :: "(string \<times> addr) list"
  parent :: "string option"

record Agency =
  objs :: "Agent list"
  agents :: "(string \<times> addr) list"
  main_agent :: addr
  default_provider :: string
  current_id :: int
  max_depth :: int
  max_breadth :: int
  max_agents :: int
  workspace_id :: string

record ToolDefinition =
  td_name :: string
  td_description :: string

subsection \<open>\<^verbatim>\<open>str\<close> of an integer\<close>

definition digit_char :: "nat \<Rightarrow> char" where
  "digit_char n = ''0123456789'' ! n"

fun str_nat :: "nat \<Rightarrow> string" where
  "str_nat n = (if n < 10 then [digit_char n] else str_nat (n div 10) @ [digit_char (n mod 10)])"

declare str_nat.simps [simp del]

definition str_int :: "int \<Rightarrow> string" where
  "str_int i = (if i < 0 then CHR ''-'' # str_nat (nat (- i)) else str_nat (nat i))"

subsection \<open>Agents\<close>

definition all_tools :: "string list" where
  "all_tools = [''create_new_agent'', ''message_agent'', ''call_meeting'', ''internal_monologue'']"

text \<open>\<^verbatim>\<open>Agent.__init__\<close>: no parent, no children, the system prompt as first message.\<close>

definition Agent_init ::
  "string \<Rightarrow> string \<Rightarrow> string \<Rightarrow> string \<Rightarrow> string list \<Rightarrow> tools_val \<Rightarrow> string list \<Rightarrow> Agent" where
  "Agent_init nm i prov sp tls acc mcp =
     \<lparr> name = nm, agent_id = i, provider = prov, tools = tls, system_prompt = sp,
       message_history = [ModelRequest [SystemPromptPart sp]],
       accessible_tools = acc, mcp_server_ids = mcp,
       parent_id = None, children = [], parent = None \<rparr>"

text \<open>
  \<^verbatim>\<open>curr_depth\<close> follows \<^verbatim>\<open>parent_id\<close> through the registry. A parent that is not registered is
  a \<^verbatim>\<open>KeyError\<close>; a chain longer than the interpreter's recursion limit (a cycle, for one) is
  a \<^verbatim>\<open>RecursionError\<close>.
\<close>

definition recursion_limit :: nat where
  "recursion_limit = 1000"

fun curr_depth_rec :: "nat \<Rightarrow> Agency \<Rightarrow> Agent \<Rightarrow> py_error + nat" where
  "curr_depth_rec 0 agency a = Inl RecursionError"
| "curr_depth_rec (Suc fuel) agency a =
     (case parent_id a of
        None \<Rightarrow> Inr 0
      | Some p \<Rightarrow>
          (case map_of (agents agency) p of
             None \<Rightarrow> Inl (KeyError p)
           | Some pa \<Rightarrow>
               (case curr_depth_rec fuel agency (objs agency ! pa) of
                  Inl e \<Rightarrow> Inl e
                | Inr d \<Rightarrow> Inr (d + 1))))"

definition curr_depth :: "Agency \<Rightarrow> Agent \<Rightarrow> py_error + nat" where
  "curr_depth agency a = curr_depth_rec recursion_limit agency a"

definition curr_breadth :: "Agent \<Rightarrow> nat" where
  "curr_breadth a = length (children a)"

subsection \<open>The agency\<close>

text \<open>
  \<^verbatim>\<open>Agency.__init__\<close> without a state: the main agent \<^verbatim>\<open>"0"\<close> alone. The provider (read from
  the environment), the workspace id and the main agent's prompt are parameters.
\<close>

definition main_accessible_tools :: tools_val where
  "main_accessible_tools =
     ToolsDict [(''create_new_agent'', True), (''message_agent'', True),
                (''call_meeting'', True), (''internal_monologue'', True)]"

definition Agency_init :: "string \<Rightarrow> string \<Rightarrow> string \<Rightarrow> Agency" where
  "Agency_init prov ws main_agent_system_prompt =
     \<lparr> objs = [Agent_init ''main_agent'' ''0'' prov main_agent_system_prompt all_tools
                 main_accessible_tools []],
       agents = [(''0'', 0)],
       main_agent = 0,
       default_provider = prov,
       current_id = 1,
       max_depth = 3,
       max_breadth = 3,
       max_agents = 10,
       workspace_id = ws \<rparr>"

definition next_id :: "Agency \<Rightarrow> string \<times> Agency" where
  "next_id agency = (str_int (current_id agency), agency\<lparr>current_id := current_id agency + 1\<rparr>)"

text \<open>An attribute assignment on the object at an address.\<close>

definition upd_obj :: "addr \<Rightarrow> (Agent \<Rightarrow> Agent) \<Rightarrow> Agency \<Rightarrow> Agency" where
  "upd_obj a f agency = agency\<lparr>objs := (objs agency)[a := f (objs agency ! a)]\<rparr>"

subsection \<open>Creating an agent\<close>

text \<open>
  \<^verbatim>\<open>create_new_agent_helper\<close> (lines 232-250). The new object is registered, then, when the
  parent is registered, the attribute \<^verbatim>\<open>parent\<close> of the new object is set (line 247; the
  attribute every reader uses is \<^verbatim>\<open>parent_id\<close>) and the parent's \<^verbatim>\<open>children\<close> gets the object.
\<close>

definition create_new_agent_helper ::
  "Agency \<Rightarrow> string \<Rightarrow> string \<Rightarrow> string \<Rightarrow> string \<times> Agency" where
  "create_new_agent_helper agency nm sp parent_id' =
     (let (new_agent_id, ag1) = next_id agency;
          new_agent = Agent_init nm new_agent_id (default_provider ag1) sp all_tools ToolsList [];
          a = length (objs ag1);
          ag2 = ag1\<lparr>objs := objs ag1 @ [new_agent],
                    agents := AList.update new_agent_id a (agents ag1)\<rparr>;
          ag3 = (case map_of (agents ag2) parent_id' of
                   None \<Rightarrow> ag2
                 | Some pa \<Rightarrow>
                     upd_obj pa (\<lambda>p. p\<lparr>children := AList.update new_agent_id a (children p)\<rparr>)
                       (upd_obj a (\<lambda>n. n\<lparr>parent := Some parent_id'\<rparr>) ag2))
      in (''Created agent: '' @ nm @ '' with ID: '' @ new_agent_id, ag3))"

text \<open>
  \<^verbatim>\<open>prepare_create_new_agent_tool\<close> (lines 259-280): the gate the framework asks before it
  offers the tool to the agent \<^verbatim>\<open>ctx.deps.agent_id\<close>. \<open>None\<close> is "not offered".
\<close>

definition prepare_create_new_agent_tool ::
  "Agency \<Rightarrow> string \<Rightarrow> ToolDefinition \<Rightarrow> py_error + ToolDefinition option" where
  "prepare_create_new_agent_tool agency aid tool_def =
     (case map_of (agents agency) aid of
        None \<Rightarrow> Inl (KeyError aid)
      | Some a \<Rightarrow>
          (let agent = objs agency ! a in
           case curr_depth agency agent of
             Inl e \<Rightarrow> Inl e
           | Inr current_depth \<Rightarrow>
               (let current_breadth = curr_breadth agent in
                case tools_get (accessible_tools agent) (td_name tool_def) of
                  Inl e \<Rightarrow> Inl e
                | Inr accessible \<Rightarrow>
                    if \<not> accessible then Inr None
                    else if int current_depth \<ge> max_depth agency then Inr None
                    else if int current_breadth \<ge> max_breadth agency then Inr None
                    else Inr (Some tool_def))))"

text \<open>
  The tool is registered as \<^verbatim>\<open>Tool(create_new_agent, prepare=prepare_create_new_agent_tool)\<close>
  (line 282): in a model step the framework asks the gate first, and the agent can call
  \<^verbatim>\<open>create_new_agent\<close> (the helper, with the caller as parent) only when the gate returned the
  definition. \<open>Inr None\<close> is a step in which the tool was not offered.
\<close>

definition create_new_agent :: "Agency \<Rightarrow> string \<Rightarrow> string \<Rightarrow> string \<Rightarrow> string \<times> Agency" where
  "create_new_agent agency caller nm sp = create_new_agent_helper agency nm sp caller"

definition create_new_agent_tool ::
  "Agency \<Rightarrow> string \<Rightarrow> ToolDefinition \<Rightarrow> string \<Rightarrow> string \<Rightarrow> (py_error + string option) \<times> Agency" where
  "create_new_agent_tool agency caller tool_def nm sp =
     (case prepare_create_new_agent_tool agency caller tool_def of
        Inl e \<Rightarrow> (Inl e, agency)
      | Inr None \<Rightarrow> (Inr None, agency)
      | Inr (Some _) \<Rightarrow>
          (let (msg, agency') = create_new_agent agency caller nm sp
           in (Inr (Some msg), agency')))"

subsection \<open>Removing an agent\<close>

text \<open>
  The loop of lines 295-298 over the keys of the removed agent's \<^verbatim>\<open>children\<close>: the child is
  looked up in the registry (a \<^verbatim>\<open>KeyError\<close> when it is not there), its \<^verbatim>\<open>parent_id\<close> is
  cleared and it is stored back under its key.
\<close>

fun orphan_children :: "string list \<Rightarrow> Agency \<Rightarrow> (py_error + unit) \<times> Agency" where
  "orphan_children [] agency = (Inr (), agency)"
| "orphan_children (child_id # rest) agency =
     (case map_of (agents agency) child_id of
        None \<Rightarrow> (Inl (KeyError child_id), agency)
      | Some ca \<Rightarrow>
          (let ag1 = upd_obj ca (\<lambda>c. c\<lparr>parent_id := None\<rparr>) agency;
               ag2 = ag1\<lparr>agents := AList.update child_id ca (agents ag1)\<rparr>
           in orphan_children rest ag2))"

text \<open>
  \<^verbatim>\<open>remove_agent_helper\<close> (lines 285-303). An exception leaves the agency as the statements
  before it made it, so the agency is returned beside the outcome in every case.
\<close>

definition remove_agent_helper :: "Agency \<Rightarrow> string \<Rightarrow> (py_error + string) \<times> Agency" where
  "remove_agent_helper agency aid =
     (case map_of (agents agency) aid of
        None \<Rightarrow> (Inr (''Agent with ID '' @ aid @ '' does not exist.''), agency)
      | Some a \<Rightarrow>
          (let (r1, ag1) =
                 (case parent_id (objs agency ! a) of
                    None \<Rightarrow> (Inr (), agency)
                  | Some p \<Rightarrow>
                      (case map_of (agents agency) p of
                         None \<Rightarrow> (Inl (KeyError p), agency)
                       | Some pa \<Rightarrow>
                           if aid \<in> fst ` set (children (objs agency ! pa))
                           then (Inr (),
                                 upd_obj pa (\<lambda>q. q\<lparr>children := AList.delete aid (children q)\<rparr>) agency)
                           else (Inl (KeyError aid), agency)))
           in case r1 of
                Inl e \<Rightarrow> (Inl e, ag1)
              | Inr _ \<Rightarrow>
                  (case orphan_children (map fst (children (objs ag1 ! a))) ag1 of
                     (Inl e, ag2) \<Rightarrow> (Inl e, ag2)
                   | (Inr _, ag2) \<Rightarrow>
                       (Inr (''Removed agent with ID: '' @ aid),
                        ag2\<lparr>agents := AList.delete aid (agents ag2)\<rparr>))))"

subsection \<open>Saving and loading the state\<close>

text \<open>
  \<^verbatim>\<open>AgentState\<close> and \<^verbatim>\<open>AgencyState\<close> are validated models: \<^verbatim>\<open>accessible_tools\<close> is declared
  \<^verbatim>\<open>Dict[str, bool]\<close>, so building an \<^verbatim>\<open>AgentState\<close> from an agent whose \<^verbatim>\<open>accessible_tools\<close> is
  a list raises a validation error.
\<close>

record AgentState =
  s_id :: string
  s_name :: string
  s_system_prompt :: string
  s_provider :: string
  s_tool_names :: "string list"
  s_accessible_tools :: "(string \<times> bool) list"
  s_message_history :: "ModelMessage list"
  s_parent_id :: "string option"
  s_child_ids :: "string list"
  s_mcp_server_ids :: "string list"

record AgencyState =
  st_agency_id :: string
  st_agents :: "AgentState list"
  st_current_id :: int
  st_max_depth :: int
  st_max_breadth :: int
  st_max_agents :: int
  st_workspace_id :: "string option"

definition Agent_save_state :: "Agent \<Rightarrow> py_error + AgentState" where
  "Agent_save_state a =
     (case accessible_tools a of
        ToolsList \<Rightarrow> Inl (ValidationError ''accessible_tools'')
      | ToolsDict d \<Rightarrow>
          Inr \<lparr> s_id = agent_id a, s_name = name a, s_system_prompt = system_prompt a,
                s_provider = provider a, s_tool_names = tools a, s_accessible_tools = d,
                s_message_history = message_history a, s_parent_id = parent_id a,
                s_child_ids = map fst (children a), s_mcp_server_ids = mcp_server_ids a \<rparr>)"

text \<open>The list comprehension over \<^verbatim>\<open>self.agents.values()\<close>: the first exception ends it.\<close>

fun save_all :: "Agent list \<Rightarrow> py_error + AgentState list" where
  "save_all [] = Inr []"
| "save_all (a # rest) =
     (case Agent_save_state a of
        Inl e \<Rightarrow> Inl e
      | Inr s \<Rightarrow> (case save_all rest of Inl e \<Rightarrow> Inl e | Inr ss \<Rightarrow> Inr (s # ss)))"

definition Agency_save_state :: "Agency \<Rightarrow> py_error + AgencyState" where
  "Agency_save_state agency =
     (case save_all (map (\<lambda>(k, a). objs agency ! a) (agents agency)) of
        Inl e \<Rightarrow> Inl e
      | Inr ss \<Rightarrow>
          Inr \<lparr> st_agency_id = agent_id (objs agency ! main_agent agency),
                st_agents = ss,
                st_current_id = current_id agency,
                st_max_depth = max_depth agency,
                st_max_breadth = max_breadth agency,
                st_max_agents = max_agents agency,
                st_workspace_id = Some (workspace_id agency) \<rparr>)"

text \<open>
  \<^verbatim>\<open>Agent.load_state\<close> (lines 1161-1179); the tools map of the agency is that of \<open>all_tools\<close>.
\<close>

definition Agent_load_state :: "AgentState \<Rightarrow> Agent" where
  "Agent_load_state st =
     (Agent_init (s_name st) (s_id st) (s_provider st) (s_system_prompt st)
        (filter (\<lambda>n. n \<in> set all_tools) (s_tool_names st))
        (ToolsDict (s_accessible_tools st)) (s_mcp_server_ids st))
       \<lparr> message_history := s_message_history st, parent_id := s_parent_id st \<rparr>"

text \<open>
  \<^verbatim>\<open>Agency.__init__\<close> with a state (lines 1218-1246). Pass 1 creates and registers one object
  per record; \<open>None\<close> for the main agent is \<^verbatim>\<open>not hasattr(self, 'main_agent')\<close>.
\<close>

fun load_agents :: "string \<Rightarrow> AgentState list \<Rightarrow> Agency \<times> addr option \<Rightarrow> Agency \<times> addr option" where
  "load_agents agency_id [] acc = acc"
| "load_agents agency_id (st # rest) (agency, m) =
     (let agent = Agent_load_state st;
          a = length (objs agency);
          ag1 = agency\<lparr>objs := objs agency @ [agent],
                       agents := AList.update (agent_id agent) a (agents agency)\<rparr>
      in load_agents agency_id rest
           (if agent_id agent = agency_id
            then (ag1\<lparr>default_provider := provider agent\<rparr>, Some a)
            else (ag1, m)))"

text \<open>Pass 2, the inner loop of lines 1242-1246; the second component collects what is printed.\<close>

fun link_children :: "addr \<Rightarrow> string list \<Rightarrow> Agency \<times> string list \<Rightarrow> Agency \<times> string list" where
  "link_children a [] acc = acc"
| "link_children a (child_id # rest) (agency, out) =
     link_children a rest
       (case map_of (agents agency) child_id of
          Some ca \<Rightarrow>
            (upd_obj a (\<lambda>x. x\<lparr>children := AList.update child_id ca (children x)\<rparr>) agency, out)
        | None \<Rightarrow>
            (agency,
             out @ [''Warning: Child agent ID '' @ child_id @ '' not found for parent ''
                    @ agent_id (objs agency ! a)]))"

fun rebuild :: "AgentState list \<Rightarrow> Agency \<times> string list \<Rightarrow> py_error + Agency \<times> string list" where
  "rebuild [] acc = Inr acc"
| "rebuild (st # rest) (agency, out) =
     (case map_of (agents agency) (s_id st) of
        None \<Rightarrow> Inl (KeyError (s_id st))
      | Some a \<Rightarrow>
          rebuild rest
            (link_children a (s_child_ids st)
               (upd_obj a (\<lambda>x. x\<lparr>parent_id := s_parent_id st\<rparr>) agency, out)))"

definition Agency_load :: "string \<Rightarrow> AgencyState \<Rightarrow> py_error + Agency \<times> string list" where
  "Agency_load ws state =
     (let ws' = (case st_workspace_id state of
                   None \<Rightarrow> ws
                 | Some w \<Rightarrow> if w = [] then ws else w);
          ag0 = \<lparr> objs = [], agents = [], main_agent = 0, default_provider = [],
                  current_id = st_current_id state,
                  max_depth = st_max_depth state,
                  max_breadth = st_max_breadth state,
                  max_agents = st_max_agents state,
                  workspace_id = ws' \<rparr>
      in case load_agents (st_agency_id state) (st_agents state) (ag0, None) of
           (ag1, None) \<Rightarrow> Inl (ValueError ''Main agent ID not found in loaded state'')
         | (ag1, Some m) \<Rightarrow> rebuild (st_agents state) (ag1\<lparr>main_agent := m\<rparr>, []))"

subsection \<open>Strings\<close>

text \<open>
  Strings are byte strings: \<open>upper\<close> and \<open>strip\<close> act on the ASCII letters and the ASCII
  white space, as \<^verbatim>\<open>str.upper\<close> and \<^verbatim>\<open>str.strip\<close> do on ASCII text.
\<close>

definition upper_char :: "char \<Rightarrow> char" where
  "upper_char c =
     (let n = (of_char c :: nat) in if 97 \<le> n \<and> n \<le> 122 then char_of (n - 32) else c)"

definition upper :: "string \<Rightarrow> string" where
  "upper s = map upper_char s"

definition is_space :: "char \<Rightarrow> bool" where
  "is_space c \<longleftrightarrow>
     (let n = (of_char c :: nat) in (9 \<le> n \<and> n \<le> 13) \<or> (28 \<le> n \<and> n \<le> 32))"

definition strip :: "string \<Rightarrow> string" where
  "strip s = rev (dropWhile is_space (rev (dropWhile is_space s)))"

fun starts_with :: "string \<Rightarrow> string \<Rightarrow> bool" where
  "starts_with [] s = True"
| "starts_with (p # ps) [] = False"
| "starts_with (p # ps) (c # cs) = (p = c \<and> starts_with ps cs)"

text \<open>\<open>contains sub s\<close> is \<^verbatim>\<open>sub in s\<close>.\<close>

fun contains :: "string \<Rightarrow> string \<Rightarrow> bool" where
  "contains sub [] = (sub = [])"
| "contains sub (c # cs) = (starts_with sub (c # cs) \<or> contains sub cs)"

fun join :: "string \<Rightarrow> string list \<Rightarrow> string" where
  "join sep [] = []"
| "join sep [x] = x"
| "join sep (x # y # ys) = x @ sep @ join sep (y # ys)"

definition nl :: string where
  "nl = [CHR 0x0A]"

definition dq :: string where
  "dq = [CHR 0x22]"

subsection \<open>Running an agent\<close>

text \<open>
  The reasoning backend is outside the program. Its answer to the call made in turn \<open>t\<close> for
  an agent (with its history) and a prompt is a parameter: \<open>Inl msg\<close> is an exception whose
  \<^verbatim>\<open>str\<close> is \<open>msg\<close>, \<open>Inr r\<close> a result with its text and the messages of the run. In a
  meeting no participant is offered a tool of the agency (every gate reads
  \<^verbatim>\<open>accessible_tools\<close>, which is empty there), so a run changes nothing but the history.
\<close>

record RunResult =
  data :: string
  new_messages :: "ModelMessage list"

type_synonym backend = "nat \<Rightarrow> Agent \<Rightarrow> string \<Rightarrow> string + RunResult"

definition append_message :: "ModelMessage list \<Rightarrow> Agent \<Rightarrow> Agent" where
  "append_message ms x = x\<lparr>message_history := message_history x @ ms\<rparr>"

text \<open>\<^verbatim>\<open>Agent.run\<close> (lines 1125-1144): the new messages are saved only when the run returns.\<close>

definition Agent_run ::
  "backend \<Rightarrow> nat \<Rightarrow> addr \<Rightarrow> string \<Rightarrow> Agency \<Rightarrow> (string + RunResult) \<times> Agency" where
  "Agent_run be t a prompt agency =
     (case be t (objs agency ! a) prompt of
        Inl e \<Rightarrow> (Inl e, agency)
      | Inr r \<Rightarrow> (Inr r, upd_obj a (append_message (new_messages r)) agency))"

subsection \<open>The meeting\<close>

record LogEntry =
  agent_name :: string
  log_agent_id :: string
  message :: string

text \<open>The local variables of \<^verbatim>\<open>call_meeting\<close> that its loop changes, and the agency.\<close>

record Meeting =
  m_agency :: Agency
  discussion_log :: "LogEntry list"
  agents_done :: "string list"
  turn :: nat

definition YOUR_TURN_PHRASE :: string where
  "YOUR_TURN_PHRASE = ''It is your turn to speak. Please respond.''"

definition is_ready :: "string \<Rightarrow> bool" where
  "is_ready response \<longleftrightarrow>
     contains ''READY_TO_END_MEETING'' (upper response) \<or> contains ''READY_TO_MOVE_ON'' (upper response)"

text \<open>Lines 470-478: the message goes to every participant whose id is not the speaker's.\<close>

fun broadcast :: "addr list \<Rightarrow> string \<Rightarrow> ModelMessage \<Rightarrow> Agency \<Rightarrow> Agency" where
  "broadcast [] speaker m agency = agency"
| "broadcast (other # rest) speaker m agency =
     broadcast rest speaker m
       (if agent_id (objs agency ! other) \<noteq> speaker
        then upd_obj other (append_message [m]) agency
        else agency)"

definition logging_agent_id :: "string \<Rightarrow> string \<Rightarrow> Agent \<Rightarrow> string" where
  "logging_agent_id temp_host_id host_id agent =
     (if agent_id agent \<noteq> temp_host_id then agent_id agent else host_id)"

text \<open>
  One turn, the body of the inner loop (lines 458-503). The boolean is the \<^verbatim>\<open>break\<close> of
  line 492. \<^verbatim>\<open>agents_done\<close> is a set of ids: \<open>List.insert\<close> adds an id that is not in it.
  A run that returns gives a result object with its \<^verbatim>\<open>data\<close>, so the guard of line 465 holds
  and the response is the stripped text.
\<close>

definition meeting_turn ::
  "backend \<Rightarrow> addr list \<Rightarrow> string \<Rightarrow> string \<Rightarrow> addr \<Rightarrow> Meeting \<Rightarrow> bool \<times> Meeting" where
  "meeting_turn be participants temp_host_id host_id a st =
     (let turn' = turn st + 1;
          agent = objs (m_agency st) ! a;
          lid = logging_agent_id temp_host_id host_id agent
      in case Agent_run be turn' a YOUR_TURN_PHRASE (m_agency st) of
           (Inr result, ag1) \<Rightarrow>
             (let response = strip (data result);
                  ag2 = broadcast participants (agent_id agent)
                          (ModelRequest [UserPromptPart
                             (''From '' @ name agent @ '' ('' @ lid @ ''): '' @ response)]) ag1;
                  log' = discussion_log st @
                           [\<lparr>agent_name = name agent, log_agent_id = lid, message = response\<rparr>];
                  done' = (if is_ready response
                           then List.insert (agent_id agent) (agents_done st)
                           else agents_done st)
              in (length done' = length participants,
                  \<lparr>m_agency = ag2, discussion_log = log', agents_done = done', turn = turn'\<rparr>))
         | (Inl e, ag1) \<Rightarrow>
             (False,
              \<lparr>m_agency = ag1,
               discussion_log = discussion_log st @
                 [\<lparr>agent_name = name agent, log_agent_id = lid,
                   message = ''Error during response: '' @ e\<rparr>],
               agents_done = List.insert (agent_id agent) (agents_done st),
               turn = turn'\<rparr>))"

text \<open>The inner loop over the participants (line 454).\<close>

fun meeting_round ::
  "backend \<Rightarrow> addr list \<Rightarrow> string \<Rightarrow> string \<Rightarrow> addr list \<Rightarrow> Meeting \<Rightarrow> Meeting" where
  "meeting_round be participants temp_host_id host_id [] st = st"
| "meeting_round be participants temp_host_id host_id (a # rest) st =
     (case meeting_turn be participants temp_host_id host_id a st of
        (True, st') \<Rightarrow> st'
      | (False, st') \<Rightarrow> meeting_round be participants temp_host_id host_id rest st')"

text \<open>
  The outer loop \<^verbatim>\<open>for _ in range(max_rounds)\<close> (lines 449-507): the first argument counts
  the iterations that are left.
\<close>

fun meeting_rounds ::
  "nat \<Rightarrow> backend \<Rightarrow> addr list \<Rightarrow> string \<Rightarrow> string \<Rightarrow> int \<Rightarrow> Meeting \<Rightarrow> Meeting" where
  "meeting_rounds 0 be participants temp_host_id host_id max_rounds st = st"
| "meeting_rounds (Suc k) be participants temp_host_id host_id max_rounds st =
     (if length (agents_done st) = length participants then st
      else
        (let st' = meeting_round be participants temp_host_id host_id participants st
         in if int (turn st') \<ge> max_rounds then st'
            else meeting_rounds k be participants temp_host_id host_id max_rounds st'))"

text \<open>Lines 369-373: the children's tools are saved under the child's id and emptied.\<close>

fun strip_tools ::
  "addr list \<Rightarrow> (string \<times> tools_val) list \<times> Agency \<Rightarrow> (string \<times> tools_val) list \<times> Agency" where
  "strip_tools [] acc = acc"
| "strip_tools (c # rest) (original, agency) =
     strip_tools rest
       (AList.update (agent_id (objs agency ! c)) (accessible_tools (objs agency ! c)) original,
        upd_obj c (\<lambda>x. x\<lparr>accessible_tools := ToolsDict []\<rparr>) agency)"

text \<open>Lines 515-517.\<close>

fun restore_tools :: "addr list \<Rightarrow> (string \<times> tools_val) list \<Rightarrow> Agency \<Rightarrow> Agency" where
  "restore_tools [] original agency = agency"
| "restore_tools (c # rest) original agency =
     restore_tools rest original
       (upd_obj c
          (\<lambda>x. x\<lparr>accessible_tools :=
                   (case map_of original (agent_id x) of None \<Rightarrow> ToolsDict [] | Some t \<Rightarrow> t)\<rparr>)
          agency)"

fun append_to_all :: "addr list \<Rightarrow> ModelMessage \<Rightarrow> Agency \<Rightarrow> Agency" where
  "append_to_all [] m agency = agency"
| "append_to_all (c # rest) m agency = append_to_all rest m (upd_obj c (append_message [m]) agency)"

definition child_instructions :: string where
  "child_instructions =
     ''Meeting Instructions:'' @ nl @
     ''- Review the discussion so far'' @ nl @
     ''- Share your thoughts related to the meeting objective'' @ nl @
     ''- Respond to points raised by other participants'' @ nl @
     ''- If you have said all you need to contribute, include '' @ dq @ ''READY_TO_MOVE_ON'' @ dq
       @ '' in your response'' @ nl"

definition host_instructions :: string where
  "host_instructions =
     ''Meeting Instructions:'' @ nl @
     ''- You are the host of this meeting. You will go first. Begin by elaborating on the objective of the meeting.'' @ nl @
     ''- Review the discussion so far'' @ nl @
     ''- Share your thoughts related to the meeting objective'' @ nl @
     ''- Respond to points raised by other participants'' @ nl @
     ''- If you have said all you need to contribute and want to end the meeting, include '' @ dq
       @ ''READY_TO_END_MEETING'' @ dq @ '' in your response'' @ nl"

definition meeting_end_message :: string where
  "meeting_end_message = ''Meeting has ended. Thank you for your participation.''"

text \<open>
  What \<^verbatim>\<open>call_meeting\<close> has built when its loop starts (lines 348-437): the agency with the
  temporary host registered, the address of the temporary host, the children, the saved
  tools, the log and the number of rounds.
\<close>

record MeetingSetup =
  ms_agency :: Agency
  ms_temp_host :: addr
  ms_children :: "addr list"
  ms_original :: "(string \<times> tools_val) list"
  ms_log :: "LogEntry list"
  ms_max_rounds :: int

definition meeting_setup ::
  "Agency \<Rightarrow> string \<Rightarrow> addr \<Rightarrow> string option \<Rightarrow> string \<Rightarrow> int \<Rightarrow> MeetingSetup" where
  "meeting_setup agency host_id h ctx_prompt meeting_objective max_turns =
     (let host = objs agency ! h;
          children' = map snd (children host);
          prompt = (case ctx_prompt of
                      None \<Rightarrow> ''Meeting called''
                    | Some p \<Rightarrow> if p = [] then ''Meeting called'' else p);
          temp_host_id = host_id @ ''_temp'';
          temp_host =
            (Agent_init (name host @ '' [Active Host]'') temp_host_id (provider host)
               (system_prompt host) (tools host) (ToolsDict []) [])
              \<lparr>message_history := message_history host @ [ModelRequest [UserPromptPart prompt]]\<rparr>;
          t = length (objs agency);
          ag1 = agency\<lparr>objs := objs agency @ [temp_host],
                       agents := AList.update temp_host_id t (agents agency)\<rparr>;
          (original, ag2) = strip_tools children' ([], ag1);
          meeting_initialized_message =
            ''Meeting initialized with objective: '' @ meeting_objective;
          init = ModelRequest [UserPromptPart meeting_initialized_message];
          log0 = [\<lparr>agent_name = name (objs ag2 ! t), log_agent_id = agent_id (objs ag2 ! t),
                   message = meeting_initialized_message\<rparr>];
          ag3 = upd_obj t (append_message [init]) ag2;
          ag4 = append_to_all children' init ag3;
          ag5 = append_to_all children' (ModelRequest [UserPromptPart child_instructions]) ag4;
          ag6 = upd_obj t (append_message [ModelRequest [UserPromptPart host_instructions]]) ag5
      in \<lparr>ms_agency = ag6, ms_temp_host = t, ms_children = children', ms_original = original,
          ms_log = log0,
          ms_max_rounds = min (max_turns * int (length (t # children'))) 15\<rparr>)"

text \<open>The loop of the meeting, from the state the setup leaves.\<close>

definition meeting_run :: "backend \<Rightarrow> string \<Rightarrow> MeetingSetup \<Rightarrow> Meeting" where
  "meeting_run be host_id ms =
     meeting_rounds (nat (ms_max_rounds ms)) be (ms_temp_host ms # ms_children ms)
       (host_id @ ''_temp'') host_id (ms_max_rounds ms)
       \<lparr>m_agency = ms_agency ms, discussion_log = ms_log ms, agents_done = [], turn = 0\<rparr>"

definition summary_line :: "LogEntry \<Rightarrow> string" where
  "summary_line e = ''['' @ agent_name e @ '' ('' @ log_agent_id e @ '')]: '' @ message e"

text \<open>Lines 509-534: the summary, the tools restored, the end message, the temporary host removed.\<close>

definition meeting_finish :: "string \<Rightarrow> MeetingSetup \<Rightarrow> Meeting \<Rightarrow> string \<times> Agency" where
  "meeting_finish host_id ms st =
     (let final_summary = join nl (map summary_line (discussion_log st));
          ag1 = restore_tools (ms_children ms) (ms_original ms) (m_agency st);
          ag2 = append_to_all (ms_children ms)
                  (ModelRequest [UserPromptPart meeting_end_message]) ag1;
          temp_host_id = host_id @ ''_temp'';
          ag3 = (if temp_host_id \<in> fst ` set (agents ag2)
                 then ag2\<lparr>agents := AList.delete temp_host_id (agents ag2)\<rparr>
                 else ag2)
      in (''Meeting complete. Summary:'' @ nl @ nl @ final_summary, ag3))"

text \<open>
  \<^verbatim>\<open>call_meeting\<close> (lines 337-534) for the host \<^verbatim>\<open>ctx.deps.agent_id\<close>, the prompt \<^verbatim>\<open>ctx.prompt\<close>,
  the objective and \<^verbatim>\<open>max_turns\<close>.
\<close>

definition call_meeting ::
  "backend \<Rightarrow> Agency \<Rightarrow> string \<Rightarrow> string option \<Rightarrow> string \<Rightarrow> int \<Rightarrow> (py_error + string) \<times> Agency" where
  "call_meeting be agency host_id ctx_prompt meeting_objective max_turns =
     (case map_of (agents agency) host_id of
        None \<Rightarrow> (Inl (KeyError host_id), agency)
      | Some h \<Rightarrow>
          if children (objs agency ! h) = [] then (Inr ''No agents available to meet.'', agency)
          else
            (let ms = meeting_setup agency host_id h ctx_prompt meeting_objective max_turns;
                 st = meeting_run be host_id ms;
                 (msg, agency') = meeting_finish host_id ms st
             in (Inr msg, agency')))"

section \<open>Basic facts\<close>

lemma str_int_digit: "0 \<le> i \<Longrightarrow> i < 10 \<Longrightarrow> str_int i = [digit_char (nat i)]"
  by (simp add: str_int_def str_nat.simps)

lemma str_int_1: "str_int 1 = ''1''"
  by (simp add: str_int_digit digit_char_def)

lemma str_int_2: "str_int 2 = ''2''"
  by (simp add: str_int_digit digit_char_def)

lemma curr_depth_root: "parent_id a = None \<Longrightarrow> curr_depth agency a = Inr 0"
  by (simp add: curr_depth_def recursion_limit_def numeral_eq_Suc)

lemma objs_upd_obj:
  "objs (upd_obj a f agency) ! b =
     (if a = b \<and> a < length (objs agency) then f (objs agency ! a) else objs agency ! b)"
  by (cases "a = b") (auto simp: upd_obj_def list_update_beyond not_less)

lemma agents_upd_obj [simp]: "agents (upd_obj a f agency) = agents agency"
  by (simp add: upd_obj_def)

lemma length_objs_upd_obj [simp]: "length (objs (upd_obj a f agency)) = length (objs agency)"
  by (simp add: upd_obj_def)

lemma parent_id_upd_obj:
  "(\<And>x. parent_id (f x) = parent_id x) \<Longrightarrow>
   parent_id (objs (upd_obj a f agency) ! b) = parent_id (objs agency ! b)"
  by (simp add: objs_upd_obj)

section \<open>Depth of a created agent\<close>

text \<open>
  Where \<^verbatim>\<open>parent_id\<close> names a registered parent whose depth is \<open>d\<close>, the depth is \<open>d + 1\<close>:
  this is how \<^verbatim>\<open>curr_depth\<close> computes.
\<close>

lemma curr_depth_rec_parent:
  "parent_id a = Some p \<Longrightarrow> map_of (agents agency) p = Some pa \<Longrightarrow>
   curr_depth_rec fuel agency (objs agency ! pa) = Inr d \<Longrightarrow>
   curr_depth_rec (Suc fuel) agency a = Inr (d + 1)"
  by simp

text \<open>
  The agent that \<^verbatim>\<open>create_new_agent_helper\<close> creates has no \<^verbatim>\<open>parent_id\<close>, whatever the agency
  and the parent: its depth is computed as 0.
\<close>

lemma create_new_agent_helper_parent_id:
  "parent_id (objs (snd (create_new_agent_helper agency nm sp pid)) ! length (objs agency)) = None"
  by (simp add: create_new_agent_helper_def next_id_def Let_def Agent_init_def parent_id_upd_obj
      split: option.splits)

lemma create_new_agent_helper_depth:
  "curr_depth (snd (create_new_agent_helper agency nm sp pid))
     (objs (snd (create_new_agent_helper agency nm sp pid)) ! length (objs agency)) = Inr 0"
  by (rule curr_depth_root) (rule create_new_agent_helper_parent_id)

text \<open>
  C1. The claim: after \<^verbatim>\<open>createActor\<close> under a parent of depth \<open>d\<close> the new actor's computed
  depth is \<open>d + 1\<close>. The code at the fresh agency, creating a child under the main agent
  \<^verbatim>\<open>"0"\<close> (depth 0): the new agent \<^verbatim>\<open>"1"\<close> is registered and is a child of \<^verbatim>\<open>"0"\<close>, the
  attribute \<^verbatim>\<open>parent\<close> holds the parent's id, \<^verbatim>\<open>parent_id\<close> is still \<^verbatim>\<open>None\<close>, and the computed
  depth of the child is 0, not 1.
\<close>

theorem create_new_agent_helper_child_depth_0:
  "(let (msg, agency') =
          create_new_agent_helper (Agency_init prov ws sp) ''child'' ''prompt'' ''0''
    in map_of (agents agency') ''1'' = Some 1
     \<and> map_of (children (objs agency' ! 0)) ''1'' = Some 1
     \<and> parent (objs agency' ! 1) = Some ''0''
     \<and> parent_id (objs agency' ! 1) = None
     \<and> curr_depth agency' (objs agency' ! 0) = Inr 0
     \<and> curr_depth agency' (objs agency' ! 1) = Inr 0)"
  by (simp add: create_new_agent_helper_def next_id_def Let_def upd_obj_def Agent_init_def
      Agency_init_def str_int_1 curr_depth_root)

section \<open>The gate of \<^verbatim>\<open>create_new_agent\<close>\<close>

lemma str_int_3: "str_int 3 = ''3''"
  by (simp add: str_int_digit digit_char_def)

text \<open>The fresh agency after the main agent has created three children.\<close>

definition three_children :: Agency where
  "three_children =
     snd (create_new_agent_helper
       (snd (create_new_agent_helper
          (snd (create_new_agent_helper (Agency_init ''p'' ''w'' ''s'') ''a'' ''x'' ''0''))
          ''b'' ''y'' ''0''))
       ''c'' ''z'' ''0'')"

lemma three_children_eval:
  "map_of (agents three_children) ''0'' = Some 0"
  "children (objs three_children ! 0) = [(''1'', 1), (''2'', 2), (''3'', 3)]"
  "parent_id (objs three_children ! 0) = None"
  "accessible_tools (objs three_children ! 0) = main_accessible_tools"
  "max_breadth three_children = 3"
  by (simp_all add: three_children_def create_new_agent_helper_def next_id_def Let_def upd_obj_def
      Agent_init_def Agency_init_def str_int_1 str_int_2 str_int_3)

text \<open>
  C2 (as amended). When the caller's computed depth plus one exceeds \<^verbatim>\<open>max_depth\<close>, or the
  caller has \<^verbatim>\<open>max_breadth\<close> children or more, the tool is not offered and the agency is
  unchanged: the gate returns \<^verbatim>\<open>None\<close> (or raises the \<^verbatim>\<open>AttributeError\<close> of line 266 where the
  caller's \<^verbatim>\<open>accessible_tools\<close> is a list). Nothing compares the number of agents with
  \<^verbatim>\<open>max_agents\<close>.
\<close>

theorem create_new_agent_tool_capacity_gate:
  assumes "map_of (agents agency) caller = Some a"
    and "curr_depth agency (objs agency ! a) = Inr d"
    and "int d + 1 > max_depth agency \<or> int (curr_breadth (objs agency ! a)) \<ge> max_breadth agency"
  shows "create_new_agent_tool agency caller tool_def nm sp =
           (case tools_get (accessible_tools (objs agency ! a)) (td_name tool_def) of
              Inl e \<Rightarrow> (Inl e, agency)
            | Inr b \<Rightarrow> (Inr None, agency))"
  using assms
  by (auto simp: create_new_agent_tool_def prepare_create_new_agent_tool_def Let_def
      split: sum.splits option.splits)

theorem create_new_agent_tool_capacity_gate_witness:
  "map_of (agents three_children) ''0'' = Some 0
   \<and> curr_depth three_children (objs three_children ! 0) = Inr 0
   \<and> int (curr_breadth (objs three_children ! 0)) \<ge> max_breadth three_children
   \<and> create_new_agent_tool three_children ''0''
        \<lparr>td_name = ''create_new_agent'', td_description = ''''\<rparr> ''d'' ''w''
      = (Inr None, three_children)"
proof -
  have a: "map_of (agents three_children) ''0'' = Some 0"
    by (simp add: three_children_eval)
  have d: "curr_depth three_children (objs three_children ! 0) = Inr 0"
    by (simp add: curr_depth_root three_children_eval)
  have b: "int (curr_breadth (objs three_children ! 0)) \<ge> max_breadth three_children"
    by (simp add: curr_breadth_def three_children_eval)
  from create_new_agent_tool_capacity_gate [OF a d disjI2 [OF b],
      of "\<lparr>td_name = ''create_new_agent'', td_description = ''''\<rparr>" "''d''" "''w''"]
  show ?thesis using a d b by (simp add: three_children_eval main_accessible_tools_def)
qed

text \<open>
  C2 as stated fails: with the number of agents already at \<^verbatim>\<open>max_agents\<close> the tool is offered
  and the agent is created.
\<close>

theorem create_new_agent_tool_max_agents_counterexample:
  "(let agency = (Agency_init ''p'' ''w'' ''s'')\<lparr>max_agents := 1\<rparr>;
        (r, agency') = create_new_agent_tool agency ''0''
           \<lparr>td_name = ''create_new_agent'', td_description = ''''\<rparr> ''x'' ''y''
    in int (length (agents agency)) \<ge> max_agents agency
     \<and> r = Inr (Some ''Created agent: x with ID: 1'')
     \<and> map fst (agents agency') = [''0'', ''1'']
     \<and> int (length (agents agency')) > max_agents agency')"
  by (simp add: create_new_agent_tool_def prepare_create_new_agent_tool_def create_new_agent_def
      create_new_agent_helper_def next_id_def Let_def upd_obj_def Agent_init_def Agency_init_def
      str_int_1 curr_depth_root curr_breadth_def main_accessible_tools_def)

section \<open>Removing an agent that the tool created\<close>

text \<open>
  The fresh agency after the main agent \<^verbatim>\<open>"0"\<close> has created \<^verbatim>\<open>"1"\<close> and \<^verbatim>\<open>"1"\<close> has created
  \<^verbatim>\<open>"2"\<close>, both with \<^verbatim>\<open>create_new_agent_helper\<close>.
\<close>

definition chain_of_three :: Agency where
  "chain_of_three =
     snd (create_new_agent_helper
       (snd (create_new_agent_helper (Agency_init ''p'' ''w'' ''s'') ''a'' ''x'' ''0''))
       ''b'' ''y'' ''1'')"

lemma chain_of_three_eq:
  "chain_of_three =
     \<lparr>objs =
        [(Agent_init ''main_agent'' ''0'' ''p'' ''s'' all_tools main_accessible_tools [])
           \<lparr>children := [(''1'', 1)]\<rparr>,
         (Agent_init ''a'' ''1'' ''p'' ''x'' all_tools ToolsList [])
           \<lparr>children := [(''2'', 2)], parent := Some ''0''\<rparr>,
         (Agent_init ''b'' ''2'' ''p'' ''y'' all_tools ToolsList [])\<lparr>parent := Some ''1''\<rparr>],
      agents = [(''0'', 0), (''1'', 1), (''2'', 2)], main_agent = 0, default_provider = ''p'',
      current_id = 3, max_depth = 3, max_breadth = 3, max_agents = 10, workspace_id = ''w''\<rparr>"
  by (simp add: chain_of_three_def create_new_agent_helper_def next_id_def Let_def upd_obj_def
      Agent_init_def Agency_init_def str_int_1 str_int_2)

text \<open>
  C8. The claim: removing an existing actor takes its id out of its parent's child set,
  orphans its children and deletes its record. The code on the chain above: removing \<^verbatim>\<open>"2"\<close>
  reports success and unregisters it, but \<^verbatim>\<open>"1"\<close> still lists \<^verbatim>\<open>"2"\<close> as a child (the
  \<^verbatim>\<open>parent_id\<close> of \<^verbatim>\<open>"2"\<close> was never set, so line 290 skips the parent); removing \<^verbatim>\<open>"1"\<close> then
  raises a \<^verbatim>\<open>KeyError\<close> at line 296 and \<^verbatim>\<open>"1"\<close> stays registered.
\<close>

theorem remove_agent_helper_created_agent:
  "(let (r1, ag1) = remove_agent_helper chain_of_three ''2'';
        (r2, ag2) = remove_agent_helper ag1 ''1''
    in r1 = Inr ''Removed agent with ID: 2''
     \<and> map fst (agents ag1) = [''0'', ''1'']
     \<and> map fst (children (objs ag1 ! 1)) = [''2'']
     \<and> r2 = Inl (KeyError ''2'')
     \<and> map fst (agents ag2) = [''0'', ''1''])"
  by (simp add: chain_of_three_eq remove_agent_helper_def Let_def upd_obj_def Agent_init_def)

section \<open>Loading a state: what the two passes build\<close>

lemma update_fresh: "k \<notin> fst ` set al \<Longrightarrow> AList.update k v al = al @ [(k, v)]"
  by (induction al) auto

lemma Agent_load_state_sel [simp]:
  "agent_id (Agent_load_state st) = s_id st"
  "name (Agent_load_state st) = s_name st"
  "provider (Agent_load_state st) = s_provider st"
  "system_prompt (Agent_load_state st) = s_system_prompt st"
  "message_history (Agent_load_state st) = s_message_history st"
  "accessible_tools (Agent_load_state st) = ToolsDict (s_accessible_tools st)"
  "parent_id (Agent_load_state st) = s_parent_id st"
  "children (Agent_load_state st) = []"
  "mcp_server_ids (Agent_load_state st) = s_mcp_server_ids st"
  by (simp_all add: Agent_load_state_def Agent_init_def)

lemma load_agents_objs:
  "objs (fst (load_agents aid sts (ag, m))) = objs ag @ map Agent_load_state sts"
  by (induction sts arbitrary: ag m) (simp_all add: Let_def)

lemma load_agents_agents:
  "distinct (map s_id sts) \<Longrightarrow> set (map s_id sts) \<inter> fst ` set (agents ag) = {} \<Longrightarrow>
   agents (fst (load_agents aid sts (ag, m))) =
     agents ag @ zip (map s_id sts) (map (\<lambda>i. length (objs ag) + i) [0..<length sts])"
proof (induction sts arbitrary: ag m)
  case Nil
  then show ?case by simp
next
  case (Cons st sts)
  have fresh: "s_id st \<notin> fst ` set (agents ag)"
    using Cons.prems(2) by auto
  define ag1 where "ag1 = ag\<lparr>objs := objs ag @ [Agent_load_state st],
                   agents := agents ag @ [(s_id st, length (objs ag))]\<rparr>"
  have d: "distinct (map s_id sts)" using Cons.prems(1) by simp
  have i: "set (map s_id sts) \<inter> fst ` set (agents (ag1\<lparr>default_provider := q\<rparr>)) = {}" for q
    using Cons.prems by (auto simp: ag1_def)
  have i0: "set (map s_id sts) \<inter> fst ` set (agents ag1) = {}"
    using Cons.prems by (auto simp: ag1_def)
  have shift: "map (\<lambda>i. length (objs ag) + i) [0..<length (st # sts)] =
      length (objs ag) # map (\<lambda>i. Suc (length (objs ag) + i)) [0..<length sts]"
  proof -
    have "[0..<length (st # sts)] = 0 # map Suc [0..<length sts]"
      by (simp add: upt_conv_Cons map_Suc_upt del: upt_Suc)
    then show ?thesis by (simp add: comp_def)
  qed
  have step: "load_agents aid (st # sts) (ag, m) =
      load_agents aid sts
        (if s_id st = aid then (ag1\<lparr>default_provider := s_provider st\<rparr>, Some (length (objs ag)))
         else (ag1, m))"
    using fresh by (auto simp: Let_def update_fresh ag1_def)
  have l1: "length (objs ag1) = Suc (length (objs ag))" by (simp add: ag1_def)
  have a1: "agents ag1 = agents ag @ [(s_id st, length (objs ag))]" by (simp add: ag1_def)
  show ?case
  proof (cases "s_id st = aid")
    case True
    show ?thesis
      unfolding step shift using Cons.IH [OF d i, of "s_provider st" "Some (length (objs ag))"] True
      by (simp add: l1 a1 del: upt_Suc)
  next
    case False
    show ?thesis
      unfolding step shift using Cons.IH [OF d i0, of m] False
      by (simp add: l1 a1 del: upt_Suc)
  qed
qed

lemma load_agents_main_Some:
  "aid \<in> set (map s_id sts) \<Longrightarrow> \<exists>a. snd (load_agents aid sts (ag, m)) = Some a"
proof (induction sts arbitrary: ag m)
  case Nil
  then show ?case by simp
next
  case (Cons st sts)
  have keep: "\<exists>a. snd (load_agents aid sts (ag', Some b)) = Some a" for ag' b
    by (induction sts arbitrary: ag' b) (simp_all add: Let_def)
  show ?case
  proof (cases "s_id st = aid")
    case True
    then show ?thesis using keep by (simp add: Let_def)
  next
    case False
    then have "aid \<in> set (map s_id sts)" using Cons.prems by auto
    then show ?thesis using Cons.IH False by (simp add: Let_def)
  qed
qed

lemma load_agents_main_id:
  "snd (load_agents aid sts (ag, m)) = Some a \<Longrightarrow>
   m = Some a \<or> (length (objs ag) \<le> a \<and> a < length (objs ag) + length sts
                 \<and> s_id (sts ! (a - length (objs ag))) = aid)"
proof (induction sts arbitrary: ag m)
  case Nil
  then show ?case by simp
next
  case (Cons st sts)
  show ?case
  proof (cases "s_id st = aid")
    case True
    with Cons.prems have
      "snd (load_agents aid sts
         (ag\<lparr>objs := objs ag @ [Agent_load_state st],
              agents := AList.update (s_id st) (length (objs ag)) (agents ag),
              default_provider := s_provider st\<rparr>, Some (length (objs ag)))) = Some a"
      by (simp add: Let_def)
    from Cons.IH [OF this] True show ?thesis
      by (auto simp: nth_Cons')
  next
    case False
    with Cons.prems have
      "snd (load_agents aid sts
         (ag\<lparr>objs := objs ag @ [Agent_load_state st],
              agents := AList.update (s_id st) (length (objs ag)) (agents ag)\<rparr>, m)) = Some a"
      by (simp add: Let_def)
    from Cons.IH [OF this] show ?thesis
      by (auto simp: nth_Cons')
  qed
qed

text \<open>
  What pass 2 leaves in one agent: for a registry \<open>reg\<close>, \<open>linked reg cs al\<close> is the \<^verbatim>\<open>children\<close>
  dict \<open>al\<close> after the listed ids that are registered were stored in it, and
  \<open>missing_children reg pid cs\<close> are the warnings printed for the others.
\<close>

definition linked :: "(string \<times> addr) list \<Rightarrow> string list \<Rightarrow> (string \<times> addr) list \<Rightarrow> (string \<times> addr) list" where
  "linked reg cs al =
     fold (\<lambda>c al. case map_of reg c of None \<Rightarrow> al | Some ca \<Rightarrow> AList.update c ca al) cs al"

definition missing_children :: "(string \<times> addr) list \<Rightarrow> string \<Rightarrow> string list \<Rightarrow> string list" where
  "missing_children reg pid cs =
     map (\<lambda>c. ''Warning: Child agent ID '' @ c @ '' not found for parent '' @ pid)
       (filter (\<lambda>c. map_of reg c = None) cs)"

definition relink :: "(string \<times> addr) list \<Rightarrow> AgentState \<Rightarrow> Agent \<Rightarrow> Agent" where
  "relink reg st x =
     x\<lparr>parent_id := s_parent_id st, children := linked reg (s_child_ids st) (children x)\<rparr>"

lemma upd_obj_upd_obj: "upd_obj a g (upd_obj a f agency) = upd_obj a (\<lambda>x. g (f x)) agency"
  by (cases "a < length (objs agency)") (simp_all add: upd_obj_def list_update_beyond not_less)

lemma upd_obj_same: "(\<And>x. f x = x) \<Longrightarrow> upd_obj a f agency = agency"
  by (simp add: upd_obj_def)

lemma link_children_spec:
  "link_children a cs (ag, out) =
     (upd_obj a (\<lambda>x. x\<lparr>children := linked (agents ag) cs (children x)\<rparr>) ag,
      out @ missing_children (agents ag) (agent_id (objs ag ! a)) cs)"
proof (induction cs arbitrary: ag out)
  case Nil
  then show ?case by (simp add: linked_def missing_children_def upd_obj_same)
next
  case (Cons c cs)
  show ?case
  proof (cases "map_of (agents ag) c")
    case None
    then show ?thesis using Cons.IH [of ag] by (simp add: linked_def missing_children_def)
  next
    case (Some ca)
    then show ?thesis
      using Cons.IH [of "upd_obj a (\<lambda>x. x\<lparr>children := AList.update c ca (children x)\<rparr>) ag" out]
      by (simp add: linked_def missing_children_def upd_obj_upd_obj objs_upd_obj)
  qed
qed

lemma rebuild_step:
  "map_of (agents ag) (s_id st) = Some a \<Longrightarrow>
   rebuild (st # rest) (ag, out) =
     rebuild rest (upd_obj a (relink (agents ag) st) ag,
                   out @ missing_children (agents ag) (agent_id (objs ag ! a)) (s_child_ids st))"
  by (simp add: link_children_spec upd_obj_upd_obj relink_def [abs_def] objs_upd_obj)

definition addr_of :: "Agency \<Rightarrow> string \<Rightarrow> addr" where
  "addr_of ag k = the (map_of (agents ag) k)"

lemma addr_of_upd_obj [simp]: "addr_of (upd_obj a f ag) = addr_of ag"
  by (simp add: addr_of_def fun_eq_iff)

lemma addr_of_objs [simp]: "addr_of (ag\<lparr>objs := os\<rparr>) = addr_of ag"
  by (simp add: addr_of_def fun_eq_iff)

lemma agent_id_relink [simp]: "agent_id (relink reg st x) = agent_id x"
  by (simp add: relink_def)

lemma rebuild_spec:
  assumes "\<forall>st\<in>set sts. map_of (agents ag) (s_id st) \<noteq> None \<and> addr_of ag (s_id st) < length (objs ag)"
    and "distinct (map (\<lambda>st. addr_of ag (s_id st)) sts)"
  shows "\<exists>os. rebuild sts (ag, out) =
            Inr (ag\<lparr>objs := os\<rparr>,
                 out @ concat (map (\<lambda>st. missing_children (agents ag)
                                 (agent_id (objs ag ! addr_of ag (s_id st))) (s_child_ids st)) sts))
          \<and> length os = length (objs ag)
          \<and> (\<forall>st\<in>set sts. os ! addr_of ag (s_id st) =
                relink (agents ag) st (objs ag ! addr_of ag (s_id st)))
          \<and> (\<forall>x. x \<notin> (\<lambda>st. addr_of ag (s_id st)) ` set sts \<longrightarrow> os ! x = objs ag ! x)"
  using assms
proof (induction sts arbitrary: ag out)
  case Nil
  show ?case by (rule exI [of _ "objs ag"]) simp
next
  case (Cons st sts)
  define a where "a = addr_of ag (s_id st)"
  have reg: "map_of (agents ag) (s_id st) = Some a"
    using Cons.prems(1) by (auto simp: a_def addr_of_def)
  have a_lt: "a < length (objs ag)"
    using Cons.prems(1) by (simp add: a_def)
  define ag1 where "ag1 = upd_obj a (relink (agents ag) st) ag"
  have ag1: "agents ag1 = agents ag" "length (objs ag1) = length (objs ag)" "addr_of ag1 = addr_of ag"
    by (simp_all add: ag1_def)
  have fresh: "a \<notin> (\<lambda>st. addr_of ag (s_id st)) ` set sts"
    using Cons.prems(2) by (auto simp: a_def)
  have other: "objs ag1 ! addr_of ag (s_id st') = objs ag ! addr_of ag (s_id st')"
    if "st' \<in> set sts" for st'
    using that fresh by (auto simp: ag1_def objs_upd_obj)
  have p1: "\<forall>st\<in>set sts. map_of (agents ag1) (s_id st) \<noteq> None
              \<and> addr_of ag1 (s_id st) < length (objs ag1)"
    using Cons.prems(1) by (simp add: ag1)
  have p2: "distinct (map (\<lambda>st. addr_of ag1 (s_id st)) sts)"
    using Cons.prems(2) by (simp add: ag1)
  from Cons.IH [OF p1 p2, of "out @ missing_children (agents ag) (agent_id (objs ag ! a)) (s_child_ids st)"]
  obtain os where os:
    "rebuild sts (ag1, out @ missing_children (agents ag) (agent_id (objs ag ! a)) (s_child_ids st)) =
       Inr (ag1\<lparr>objs := os\<rparr>,
            (out @ missing_children (agents ag) (agent_id (objs ag ! a)) (s_child_ids st)) @
            concat (map (\<lambda>st. missing_children (agents ag1)
                      (agent_id (objs ag1 ! addr_of ag1 (s_id st))) (s_child_ids st)) sts))"
    "length os = length (objs ag1)"
    "\<forall>st\<in>set sts. os ! addr_of ag1 (s_id st) = relink (agents ag1) st (objs ag1 ! addr_of ag1 (s_id st))"
    "\<forall>x. x \<notin> (\<lambda>st. addr_of ag1 (s_id st)) ` set sts \<longrightarrow> os ! x = objs ag1 ! x"
    by blast
  have w: "map (\<lambda>st. missing_children (agents ag1)
                      (agent_id (objs ag1 ! addr_of ag1 (s_id st))) (s_child_ids st)) sts
         = map (\<lambda>st. missing_children (agents ag)
                      (agent_id (objs ag ! addr_of ag (s_id st))) (s_child_ids st)) sts"
    by (rule map_cong) (simp_all add: ag1 other)
  have e: "ag1\<lparr>objs := os\<rparr> = ag\<lparr>objs := os\<rparr>"
    by (simp add: ag1_def upd_obj_def)
  have r: "rebuild (st # sts) (ag, out) =
             Inr (ag\<lparr>objs := os\<rparr>,
                  out @ concat (map (\<lambda>st. missing_children (agents ag)
                                 (agent_id (objs ag ! addr_of ag (s_id st))) (s_child_ids st)) (st # sts)))"
  proof -
    have "rebuild (st # sts) (ag, out) =
            rebuild sts (ag1, out @ missing_children (agents ag) (agent_id (objs ag ! a)) (s_child_ids st))"
      by (simp only: rebuild_step [OF reg] ag1_def)
    also note os(1)
    finally show ?thesis by (simp add: w e a_def)
  qed
  have h: "os ! a = relink (agents ag) st (objs ag ! a)"
    using os(4) fresh a_lt by (simp add: ag1 ag1_def objs_upd_obj)
  have t: "\<forall>st'\<in>set sts. os ! addr_of ag (s_id st') = relink (agents ag) st' (objs ag ! addr_of ag (s_id st'))"
    using os(3) other by (simp add: ag1)
  have f: "\<forall>x. x \<notin> (\<lambda>st. addr_of ag (s_id st)) ` set (st # sts) \<longrightarrow> os ! x = objs ag ! x"
    using os(4) by (auto simp: ag1 ag1_def objs_upd_obj a_def)
  show ?case
    using r os(2) h t f by (auto simp: ag1 a_def)
qed

lemma load_agents_scalars:
  "current_id (fst (load_agents aid sts (ag, m))) = current_id ag
   \<and> max_depth (fst (load_agents aid sts (ag, m))) = max_depth ag
   \<and> max_breadth (fst (load_agents aid sts (ag, m))) = max_breadth ag
   \<and> max_agents (fst (load_agents aid sts (ag, m))) = max_agents ag
   \<and> workspace_id (fst (load_agents aid sts (ag, m))) = workspace_id ag"
  by (induction sts arbitrary: ag m) (simp_all add: Let_def)

lemma addr_of_zip:
  "distinct ids \<Longrightarrow> i < length ids \<Longrightarrow> agents ag = zip ids [0..<length ids] \<Longrightarrow>
   map_of (agents ag) (ids ! i) = Some i \<and> addr_of ag (ids ! i) = i"
  using map_of_zip_nth [of ids "[0..<length ids]" i] by (simp add: addr_of_def)

lemma Agency_load_spec:
  assumes d: "distinct (map s_id (st_agents state))"
    and m: "st_agency_id state \<in> set (map s_id (st_agents state))"
  shows "\<exists>ag. Agency_load ws state =
            Inr (ag, concat (map (\<lambda>st. missing_children
                                    (zip (map s_id (st_agents state)) [0..<length (st_agents state)])
                                    (s_id st) (s_child_ids st)) (st_agents state)))
          \<and> agents ag = zip (map s_id (st_agents state)) [0..<length (st_agents state)]
          \<and> objs ag = map (\<lambda>st. relink (zip (map s_id (st_agents state)) [0..<length (st_agents state)])
                                  st (Agent_load_state st)) (st_agents state)
          \<and> main_agent ag < length (st_agents state)
          \<and> s_id (st_agents state ! main_agent ag) = st_agency_id state
          \<and> current_id ag = st_current_id state
          \<and> max_depth ag = st_max_depth state
          \<and> max_breadth ag = st_max_breadth state
          \<and> max_agents ag = st_max_agents state"
proof -
  define sts where "sts = st_agents state"
  define ids where "ids = map s_id sts"
  define n where "n = length sts"
  define reg where "reg = zip ids [0..<n]"
  define ag0 where "ag0 = \<lparr> objs = [], agents = [], main_agent = 0, default_provider = [],
                  current_id = st_current_id state,
                  max_depth = st_max_depth state,
                  max_breadth = st_max_breadth state,
                  max_agents = st_max_agents state,
                  workspace_id = (case st_workspace_id state of
                   None \<Rightarrow> ws
                 | Some w \<Rightarrow> if w = [] then ws else w) \<rparr>"
  define ag1 where "ag1 = fst (load_agents (st_agency_id state) sts (ag0, None))"
  have dist: "distinct ids" using d by (simp add: ids_def sts_def)
  have len: "length ids = n" by (simp add: ids_def n_def)
  obtain mm where mm: "snd (load_agents (st_agency_id state) sts (ag0, None)) = Some mm"
    using load_agents_main_Some [of "st_agency_id state" sts ag0 None] m by (auto simp: sts_def)
  have pass1: "load_agents (st_agency_id state) sts (ag0, None) = (ag1, Some mm)"
    using mm by (simp add: ag1_def prod_eq_iff)
  have mm_ok: "mm < n \<and> s_id (sts ! mm) = st_agency_id state"
    using load_agents_main_id [OF mm] by (simp add: ag0_def n_def)
  have objs1: "objs ag1 = map Agent_load_state sts"
    by (simp add: ag1_def load_agents_objs ag0_def)
  have agents1: "agents ag1 = reg"
    using load_agents_agents [of sts ag0 "st_agency_id state" None] dist
    by (simp add: ag1_def ag0_def reg_def ids_def n_def)
  have scal: "current_id ag1 = st_current_id state" "max_depth ag1 = st_max_depth state"
    "max_breadth ag1 = st_max_breadth state" "max_agents ag1 = st_max_agents state"
    using load_agents_scalars [of "st_agency_id state" sts ag0 None]
    by (simp_all add: ag1_def ag0_def)
  define ag2 where "ag2 = ag1\<lparr>main_agent := mm\<rparr>"
  have ag2: "agents ag2 = zip ids [0..<length ids]" "objs ag2 = map Agent_load_state sts"
    by (simp_all add: ag2_def agents1 objs1 reg_def len)
  have addr: "map_of (agents ag2) (s_id (sts ! i)) = Some i \<and> addr_of ag2 (s_id (sts ! i)) = i"
    if "i < n" for i
    using addr_of_zip [OF dist _ ag2(1), of i] that by (simp add: len) (simp add: ids_def n_def)
  have addrs: "map (\<lambda>st. addr_of ag2 (s_id st)) sts = [0..<n]"
    by (rule nth_equalityI) (simp_all add: n_def addr [unfolded n_def])
  have h1: "\<forall>st\<in>set sts. map_of (agents ag2) (s_id st) \<noteq> None
              \<and> addr_of ag2 (s_id st) < length (objs ag2)"
    using addr by (auto simp: in_set_conv_nth n_def ag2(2))
  have h2: "distinct (map (\<lambda>st. addr_of ag2 (s_id st)) sts)"
    by (simp add: addrs)
  from rebuild_spec [OF h1 h2, of "[]"] obtain os where os:
    "rebuild sts (ag2, []) =
       Inr (ag2\<lparr>objs := os\<rparr>,
            concat (map (\<lambda>st. missing_children (agents ag2)
                      (agent_id (objs ag2 ! addr_of ag2 (s_id st))) (s_child_ids st)) sts))"
    "length os = length (objs ag2)"
    "\<forall>st\<in>set sts. os ! addr_of ag2 (s_id st) = relink (agents ag2) st (objs ag2 ! addr_of ag2 (s_id st))"
    by auto
  have warn: "map (\<lambda>st. missing_children (agents ag2)
                      (agent_id (objs ag2 ! addr_of ag2 (s_id st))) (s_child_ids st)) sts
            = map (\<lambda>st. missing_children reg (s_id st) (s_child_ids st)) sts"
  proof (rule nth_equalityI)
    show "length (map (\<lambda>st. missing_children (agents ag2)
                      (agent_id (objs ag2 ! addr_of ag2 (s_id st))) (s_child_ids st)) sts)
        = length (map (\<lambda>st. missing_children reg (s_id st) (s_child_ids st)) sts)"
      by simp
  next
    fix i
    assume "i < length (map (\<lambda>st. missing_children (agents ag2)
                      (agent_id (objs ag2 ! addr_of ag2 (s_id st))) (s_child_ids st)) sts)"
    then have i: "i < n" by (simp add: n_def)
    then show "map (\<lambda>st. missing_children (agents ag2)
                      (agent_id (objs ag2 ! addr_of ag2 (s_id st))) (s_child_ids st)) sts ! i
             = map (\<lambda>st. missing_children reg (s_id st) (s_child_ids st)) sts ! i"
      using addr [OF i] by (simp add: n_def ag2 reg_def len)
  qed
  have os_eq: "os = map (\<lambda>st. relink reg st (Agent_load_state st)) sts"
  proof (rule nth_equalityI)
    show "length os = length (map (\<lambda>st. relink reg st (Agent_load_state st)) sts)"
      using os(2) by (simp add: ag2)
  next
    fix i
    assume "i < length os"
    then have i: "i < n" using os(2) by (simp add: ag2 n_def)
    then have "sts ! i \<in> set sts" by (simp add: n_def)
    from os(3) [rule_format, OF this] addr [OF i] i
    show "os ! i = map (\<lambda>st. relink reg st (Agent_load_state st)) sts ! i"
      by (simp add: ag2 n_def reg_def len)
  qed
  have "Agency_load ws state = rebuild sts (ag2, [])"
    using pass1 by (simp add: Agency_load_def ag0_def [symmetric] sts_def [symmetric] ag2_def Let_def)
  then have "Agency_load ws state =
      Inr (ag2\<lparr>objs := os\<rparr>, concat (map (\<lambda>st. missing_children reg (s_id st) (s_child_ids st)) sts))"
    using os(1) by (simp add: warn)
  then show ?thesis
    using mm_ok scal
    by (intro exI [of _ "ag2\<lparr>objs := os\<rparr>"])
       (simp add: os_eq ag2_def agents1 reg_def ids_def n_def sts_def)
qed

lemma map_of_linked:
  "map_of (linked reg cs al) c =
     (if c \<in> set cs \<and> map_of reg c \<noteq> None then map_of reg c else map_of al c)"
  unfolding linked_def
  by (induction cs arbitrary: al) (auto simp: update_conv' split: option.splits)

lemma keys_linked:
  "fst ` set (linked reg cs al) = fst ` set al \<union> {c \<in> set cs. map_of reg c \<noteq> None}"
  unfolding linked_def
  by (induction cs arbitrary: al) (auto simp: dom_update split: option.splits)

lemma missing_children_zip:
  "length ids = length as \<Longrightarrow>
   missing_children (zip ids as) pid cs =
     map (\<lambda>c. ''Warning: Child agent ID '' @ c @ '' not found for parent '' @ pid)
       (filter (\<lambda>c. c \<notin> set ids) cs)"
  by (simp add: missing_children_def)

section \<open>Loading a state with references to missing agents\<close>

text \<open>
  C9 (as amended). For a snapshot that lists each agent id once and holds the record of the
  main agent, loading completes and registers one agent per record, in order. Each agent's
  \<^verbatim>\<open>children\<close> holds exactly the listed child ids that name a record, each bound to the
  registered object of that id: a child id that names no record is dropped, and one warning
  is printed for it. Nothing is said here about a \<^verbatim>\<open>parent_id\<close> that names no record.
\<close>

theorem Agency_load_drops_missing_children:
  assumes "distinct (map s_id (st_agents state))"
    and "st_agency_id state \<in> set (map s_id (st_agents state))"
  shows "\<exists>ag out. Agency_load ws state = Inr (ag, out)
     \<and> map fst (agents ag) = map s_id (st_agents state)
     \<and> (\<forall>i < length (st_agents state).
           map_of (agents ag) (s_id (st_agents state ! i)) = Some i
         \<and> agent_id (objs ag ! i) = s_id (st_agents state ! i)
         \<and> fst ` set (children (objs ag ! i)) =
             set (s_child_ids (st_agents state ! i)) \<inter> set (map s_id (st_agents state))
         \<and> (\<forall>c ca. map_of (children (objs ag ! i)) c = Some ca \<longrightarrow> map_of (agents ag) c = Some ca))
     \<and> out = concat (map (\<lambda>st. map (\<lambda>c. ''Warning: Child agent ID '' @ c
                                       @ '' not found for parent '' @ s_id st)
                               (filter (\<lambda>c. c \<notin> set (map s_id (st_agents state))) (s_child_ids st)))
                      (st_agents state))"
proof -
  let ?sts = "st_agents state"
  let ?ids = "map s_id ?sts"
  let ?reg = "zip ?ids [0..<length ?sts]"
  from Agency_load_spec [OF assms, of ws] obtain ag where ag:
    "Agency_load ws state =
       Inr (ag, concat (map (\<lambda>st. missing_children ?reg (s_id st) (s_child_ids st)) ?sts))"
    "agents ag = ?reg"
    "objs ag = map (\<lambda>st. relink ?reg st (Agent_load_state st)) ?sts"
    by blast
  have none: "map_of ?reg c = None \<longleftrightarrow> c \<notin> set ?ids" for c
    by (simp add: map_of_zip_is_None)
  have out: "concat (map (\<lambda>st. missing_children ?reg (s_id st) (s_child_ids st)) ?sts) =
      concat (map (\<lambda>st. map (\<lambda>c. ''Warning: Child agent ID '' @ c
                                       @ '' not found for parent '' @ s_id st)
                               (filter (\<lambda>c. c \<notin> set ?ids) (s_child_ids st))) ?sts)"
    by (simp add: missing_children_zip)
  have keys: "map fst (agents ag) = ?ids"
    by (simp add: ag(2))
  have each: "map_of (agents ag) (s_id (?sts ! i)) = Some i
         \<and> agent_id (objs ag ! i) = s_id (?sts ! i)
         \<and> fst ` set (children (objs ag ! i)) = set (s_child_ids (?sts ! i)) \<inter> set ?ids
         \<and> (\<forall>c ca. map_of (children (objs ag ! i)) c = Some ca \<longrightarrow> map_of (agents ag) c = Some ca)"
    if i: "i < length ?sts" for i
  proof -
    have "map_of ?reg (?ids ! i) = Some ([0..<length ?sts] ! i)"
      by (rule map_of_zip_nth) (use assms(1) i in simp_all)
    then have a: "map_of (agents ag) (s_id (?sts ! i)) = Some i"
      using i by (simp add: ag(2))
    have o: "objs ag ! i = relink ?reg (?sts ! i) (Agent_load_state (?sts ! i))"
      using i by (simp add: ag(3))
    have k: "fst ` set (children (objs ag ! i)) = set (s_child_ids (?sts ! i)) \<inter> set ?ids"
      unfolding o relink_def using none by (auto simp: keys_linked)
    have p: "map_of (children (objs ag ! i)) c = Some ca \<Longrightarrow> map_of (agents ag) c = Some ca" for c ca
      unfolding o relink_def ag(2) by (simp add: map_of_linked split: if_splits)
    show ?thesis using a o k p by simp
  qed
  show ?thesis
    using ag(1) out keys each by (intro exI [of _ ag] exI) auto
qed

text \<open>A snapshot of the main agent and one child, with a child id that names no record.\<close>

definition state_root :: AgentState where
  "state_root =
     \<lparr>s_id = ''0'', s_name = ''main_agent'', s_system_prompt = ''s'', s_provider = ''p'',
      s_tool_names = all_tools, s_accessible_tools = [(''create_new_agent'', True)],
      s_message_history = [ModelRequest [SystemPromptPart ''s'']], s_parent_id = None,
      s_child_ids = [''1'', ''7''], s_mcp_server_ids = []\<rparr>"

definition state_child :: AgentState where
  "state_child =
     \<lparr>s_id = ''1'', s_name = ''a'', s_system_prompt = ''x'', s_provider = ''p'',
      s_tool_names = all_tools, s_accessible_tools = [],
      s_message_history = [ModelRequest [SystemPromptPart ''x'']], s_parent_id = Some ''0'',
      s_child_ids = [], s_mcp_server_ids = []\<rparr>"

definition snapshot_missing_child :: AgencyState where
  "snapshot_missing_child =
     \<lparr>st_agency_id = ''0'', st_agents = [state_root, state_child], st_current_id = 2,
      st_max_depth = 3, st_max_breadth = 3, st_max_agents = 10, st_workspace_id = Some ''w''\<rparr>"

theorem Agency_load_drops_missing_children_witness:
  "distinct (map s_id (st_agents snapshot_missing_child))
   \<and> st_agency_id snapshot_missing_child \<in> set (map s_id (st_agents snapshot_missing_child))
   \<and> (\<exists>ag. Agency_load ''w'' snapshot_missing_child =
              Inr (ag, [''Warning: Child agent ID 7 not found for parent 0''])
         \<and> map fst (agents ag) = [''0'', ''1'']
         \<and> fst ` set (children (objs ag ! 0)) = {''1''})"
proof -
  have d: "distinct (map s_id (st_agents snapshot_missing_child))"
    by (simp add: snapshot_missing_child_def state_root_def state_child_def)
  have m: "st_agency_id snapshot_missing_child \<in> set (map s_id (st_agents snapshot_missing_child))"
    by (simp add: snapshot_missing_child_def state_root_def state_child_def)
  have ids: "map s_id (st_agents snapshot_missing_child) = [''0'', ''1'']"
    by (simp add: snapshot_missing_child_def state_root_def state_child_def)
  have kids: "s_child_ids (st_agents snapshot_missing_child ! 0) = [''1'', ''7'']"
    by (simp add: snapshot_missing_child_def state_root_def)
  have warn: "concat (map (\<lambda>st. map (\<lambda>c. ''Warning: Child agent ID '' @ c
                                       @ '' not found for parent '' @ s_id st)
                (filter (\<lambda>c. c \<notin> set [''0'', ''1'']) (s_child_ids st)))
              (st_agents snapshot_missing_child))
            = [''Warning: Child agent ID 7 not found for parent 0'']"
    by (simp add: snapshot_missing_child_def state_root_def state_child_def)
  have n: "0 < length (st_agents snapshot_missing_child)"
    by (simp add: snapshot_missing_child_def)
  from Agency_load_drops_missing_children [OF d m, of "''w''"]
  have "\<exists>ag. Agency_load ''w'' snapshot_missing_child =
              Inr (ag, [''Warning: Child agent ID 7 not found for parent 0''])
         \<and> map fst (agents ag) = [''0'', ''1'']
         \<and> fst ` set (children (objs ag ! 0)) = {''1''}"
    unfolding ids warn
  proof (elim exE conjE)
    fix ag out
    assume a: "Agency_load ''w'' snapshot_missing_child = Inr (ag, out)"
      and k: "map fst (agents ag) = [''0'', ''1'']"
      and e: "\<forall>i<length (st_agents snapshot_missing_child).
           map_of (agents ag) (s_id (st_agents snapshot_missing_child ! i)) = Some i \<and>
           agent_id (objs ag ! i) = s_id (st_agents snapshot_missing_child ! i) \<and>
           fst ` set (children (objs ag ! i)) =
           set (s_child_ids (st_agents snapshot_missing_child ! i)) \<inter> set [''0'', ''1''] \<and>
           (\<forall>c ca. map_of (children (objs ag ! i)) c = Some ca \<longrightarrow> map_of (agents ag) c = Some ca)"
      and o: "out = [''Warning: Child agent ID 7 not found for parent 0'']"
    from e n have "fst ` set (children (objs ag ! 0)) =
           set (s_child_ids (st_agents snapshot_missing_child ! 0)) \<inter> set [''0'', ''1'']"
      by simp
    then have c: "fst ` set (children (objs ag ! 0)) = {''1''}"
      unfolding kids by auto
    show ?thesis
      using a k c unfolding o by (intro exI [of _ ag]) simp
  qed
  with d m show ?thesis by simp
qed

text \<open>
  Two snapshots with a reference to a missing id: in the first the record of the main agent is
  missing as well, in the second a \<^verbatim>\<open>parent_id\<close> names no record.
\<close>

definition snapshot_no_main :: AgencyState where
  "snapshot_no_main = snapshot_missing_child\<lparr>st_agents := [state_child\<lparr>s_child_ids := [''2'']\<rparr>]\<rparr>"

definition snapshot_missing_parent :: AgencyState where
  "snapshot_missing_parent =
     snapshot_missing_child
       \<lparr>st_agents := [state_root\<lparr>s_child_ids := [''1'']\<rparr>, state_child\<lparr>s_parent_id := Some ''9''\<rparr>]\<rparr>"

lemma curr_depth_missing_parent:
  "parent_id a = Some p \<Longrightarrow> map_of (agents agency) p = None \<Longrightarrow>
   curr_depth agency a = Inl (KeyError p)"
  by (simp add: curr_depth_def recursion_limit_def numeral_eq_Suc)

lemma load_no_main:
  "Agency_load ''w'' snapshot_no_main = Inl (ValueError ''Main agent ID not found in loaded state'')"
  by (simp add: Agency_load_def snapshot_no_main_def
      snapshot_missing_child_def state_root_def state_child_def Let_def Agent_load_state_def
      Agent_init_def)

lemma load_missing_parent:
  "Agency_load ''w'' snapshot_missing_parent =
     Inr (\<lparr>objs = [Agent_load_state (state_root\<lparr>s_child_ids := [''1'']\<rparr>)\<lparr>children := [(''1'', 1)]\<rparr>,
                  Agent_load_state (state_child\<lparr>s_parent_id := Some ''9''\<rparr>)],
           agents = [(''0'', 0), (''1'', 1)], main_agent = 0, default_provider = ''p'',
           current_id = 2, max_depth = 3, max_breadth = 3, max_agents = 10,
           workspace_id = ''w''\<rparr>, [])"
  by (simp add: Agency_load_def snapshot_missing_parent_def
      snapshot_missing_child_def state_root_def state_child_def Let_def Agent_load_state_def
      Agent_init_def upd_obj_def)

text \<open>
  C9 as stated fails. Loading the first snapshot is aborted by the \<^verbatim>\<open>ValueError\<close> of line 1235.
  Loading the second completes, but the \<^verbatim>\<open>parent_id\<close> that names no record is kept as it is
  and nothing is printed; the depth of that agent is then a \<^verbatim>\<open>KeyError\<close>.
\<close>

theorem Agency_load_counterexample:
  "Agency_load ''w'' snapshot_no_main = Inl (ValueError ''Main agent ID not found in loaded state'')
   \<and> (case Agency_load ''w'' snapshot_missing_parent of
        Inl e \<Rightarrow> False
      | Inr (ag, out) \<Rightarrow>
          out = [] \<and> map_of (agents ag) ''1'' = Some 1 \<and> map_of (agents ag) ''9'' = None
          \<and> parent_id (objs ag ! 1) = Some ''9''
          \<and> curr_depth ag (objs ag ! 1) = Inl (KeyError ''9''))"
  by (simp add: load_no_main load_missing_parent curr_depth_missing_parent
      Agent_load_state_def Agent_init_def state_child_def)

section \<open>Saving and loading back\<close>

text \<open>
  An agency that can be saved and loaded back: the registry is a dict keyed by the agents'
  own ids, every registered agent has a dict of tools and a \<^verbatim>\<open>children\<close> dict whose keys are
  registered, and the main agent is registered.
\<close>

definition saveable :: "Agency \<Rightarrow> bool" where
  "saveable agency \<longleftrightarrow>
     distinct (map fst (agents agency))
   \<and> (\<forall>(k, a) \<in> set (agents agency).
         agent_id (objs agency ! a) = k
       \<and> (\<exists>d. accessible_tools (objs agency ! a) = ToolsDict d)
       \<and> distinct (map fst (children (objs agency ! a)))
       \<and> fst ` set (children (objs agency ! a)) \<subseteq> fst ` set (agents agency))
   \<and> agent_id (objs agency ! main_agent agency) \<in> fst ` set (agents agency)"

lemma save_all_ok:
  "\<forall>a\<in>set as. \<exists>d. accessible_tools a = ToolsDict d \<Longrightarrow>
   \<exists>ss. save_all as = Inr ss \<and> list_all2 (\<lambda>a s. Agent_save_state a = Inr s) as ss"
proof (induction as)
  case Nil
  then show ?case by simp
next
  case (Cons a as)
  then obtain ss where ss: "save_all as = Inr ss" "list_all2 (\<lambda>a s. Agent_save_state a = Inr s) as ss"
    by auto
  from Cons.prems obtain d where d: "accessible_tools a = ToolsDict d" by auto
  then obtain s where s: "Agent_save_state a = Inr s"
    by (simp add: Agent_save_state_def)
  show ?case using ss s by simp
qed

lemma Agent_save_state_fields:
  "Agent_save_state a = Inr s \<Longrightarrow>
   s_id s = agent_id a \<and> s_parent_id s = parent_id a \<and> s_child_ids s = map fst (children a)
   \<and> accessible_tools a = ToolsDict (s_accessible_tools s)
   \<and> s_message_history s = message_history a \<and> s_name s = name a
   \<and> s_system_prompt s = system_prompt a \<and> s_provider s = provider a"
  by (auto simp: Agent_save_state_def split: tools_val.splits)

lemma keys_linked_fresh:
  "distinct cs \<Longrightarrow> \<forall>c\<in>set cs. map_of reg c \<noteq> None \<Longrightarrow> set cs \<inter> fst ` set al = {} \<Longrightarrow>
   map fst (linked reg cs al) = map fst al @ cs"
proof (induction cs arbitrary: al)
  case Nil
  then show ?case by (simp add: linked_def)
next
  case (Cons c cs)
  from Cons.prems obtain ca where ca: "map_of reg c = Some ca" by auto
  have fresh: "c \<notin> fst ` set al" using Cons.prems(3) by auto
  have step: "linked reg (c # cs) al = linked reg cs (al @ [(c, ca)])"
    by (simp add: linked_def ca update_fresh [OF fresh])
  have "map fst (linked reg cs (al @ [(c, ca)])) = map fst (al @ [(c, ca)]) @ cs"
    by (rule Cons.IH) (use Cons.prems in auto)
  then show ?case by (simp add: step)
qed

lemma missing_children_none:
  "\<forall>c\<in>set cs. map_of reg c \<noteq> None \<Longrightarrow> missing_children reg pid cs = []"
  by (simp add: missing_children_def)

text \<open>
  C5 (as amended). For a saveable agency, saving succeeds and loading the saved state
  completes without a warning; the loaded agency registers the same ids in the same order,
  and the agent registered under each id has the same \<^verbatim>\<open>parent_id\<close>, the same child ids in the
  same order (each bound to the registered object of that id), the same \<^verbatim>\<open>accessible_tools\<close>
  and the same message history as the original.
\<close>

theorem save_load_round_trip:
  assumes wf: "saveable agency"
  shows "\<exists>state agency'.
           Agency_save_state agency = Inr state
         \<and> Agency_load ws state = Inr (agency', [])
         \<and> map fst (agents agency') = map fst (agents agency)
         \<and> (\<forall>k a a'. map_of (agents agency) k = Some a \<longrightarrow> map_of (agents agency') k = Some a' \<longrightarrow>
               agent_id (objs agency' ! a') = k
             \<and> parent_id (objs agency' ! a') = parent_id (objs agency ! a)
             \<and> map fst (children (objs agency' ! a')) = map fst (children (objs agency ! a))
             \<and> (\<forall>c ca. map_of (children (objs agency' ! a')) c = Some ca \<longrightarrow>
                    map_of (agents agency') c = Some ca)
             \<and> accessible_tools (objs agency' ! a') = accessible_tools (objs agency ! a)
             \<and> message_history (objs agency' ! a') = message_history (objs agency ! a))"
proof -
  define reg0 where "reg0 = agents agency"
  define os where "os = map (\<lambda>(k, a). objs agency ! a) reg0"
  define n where "n = length reg0"
  have dk: "distinct (map fst reg0)"
    using wf by (simp add: saveable_def reg0_def)
  have entry: "agent_id (objs agency ! a) = k
       \<and> (\<exists>d. accessible_tools (objs agency ! a) = ToolsDict d)
       \<and> distinct (map fst (children (objs agency ! a)))
       \<and> fst ` set (children (objs agency ! a)) \<subseteq> fst ` set reg0"
    if "(k, a) \<in> set reg0" for k a
  proof -
    have "\<forall>x\<in>set reg0. case x of (k, a) \<Rightarrow>
         agent_id (objs agency ! a) = k
       \<and> (\<exists>d. accessible_tools (objs agency ! a) = ToolsDict d)
       \<and> distinct (map fst (children (objs agency ! a)))
       \<and> fst ` set (children (objs agency ! a)) \<subseteq> fst ` set reg0"
      using wf by (simp add: saveable_def reg0_def)
    from bspec [OF this that] show ?thesis by simp
  qed
  have "\<forall>x\<in>set os. \<exists>d. accessible_tools x = ToolsDict d"
    using entry by (auto simp: os_def)
  from save_all_ok [OF this] obtain ss where ss:
    "save_all os = Inr ss" "list_all2 (\<lambda>a s. Agent_save_state a = Inr s) os ss"
    by auto
  have len: "length ss = n" "length os = n"
    using ss(2) by (simp_all add: list_all2_lengthD [symmetric] os_def n_def)
  have sv: "Agent_save_state (objs agency ! snd (reg0 ! i)) = Inr (ss ! i)" if "i < n" for i
    using list_all2_nthD [OF ss(2), of i] that len
    by (simp add: os_def n_def case_prod_beta)
  have ids: "map s_id ss = map fst reg0"
  proof (rule nth_equalityI)
    show "length (map s_id ss) = length (map fst reg0)" by (simp add: len n_def)
  next
    fix i assume "i < length (map s_id ss)"
    then have i: "i < n" by (simp add: len)
    then have "(fst (reg0 ! i), snd (reg0 ! i)) \<in> set reg0" by (simp add: n_def)
    from entry [OF this] Agent_save_state_fields [OF sv [OF i]] i
    show "map s_id ss ! i = map fst reg0 ! i" by (simp add: len n_def)
  qed
  define state where "state =
     \<lparr> st_agency_id = agent_id (objs agency ! main_agent agency), st_agents = ss,
       st_current_id = current_id agency, st_max_depth = max_depth agency,
       st_max_breadth = max_breadth agency, st_max_agents = max_agents agency,
       st_workspace_id = Some (workspace_id agency) \<rparr>"
  have saved: "Agency_save_state agency = Inr state"
    using ss(1) by (simp add: Agency_save_state_def os_def reg0_def state_def)
  have d: "distinct (map s_id (st_agents state))"
    using dk by (simp add: state_def ids)
  have m: "st_agency_id state \<in> set (map s_id (st_agents state))"
    using wf by (simp add: state_def ids saveable_def reg0_def)
  define reg where "reg = zip (map fst reg0) [0..<n]"
  from Agency_load_spec [OF d m, of ws] obtain ag' where ag':
    "Agency_load ws state =
       Inr (ag', concat (map (\<lambda>st. missing_children reg (s_id st) (s_child_ids st)) ss))"
    "agents ag' = reg"
    "objs ag' = map (\<lambda>st. relink reg st (Agent_load_state st)) ss"
    by (auto simp: state_def ids reg_def len)
  have registered: "map_of reg c \<noteq> None" if "c \<in> fst ` set reg0" for c
    using that by (simp add: reg_def n_def map_of_zip_is_None)
  have kids: "s_child_ids (ss ! i) = map fst (children (objs agency ! snd (reg0 ! i)))
      \<and> distinct (s_child_ids (ss ! i)) \<and> (\<forall>c\<in>set (s_child_ids (ss ! i)). map_of reg c \<noteq> None)"
    if i: "i < n" for i
  proof -
    have "(fst (reg0 ! i), snd (reg0 ! i)) \<in> set reg0" using i by (simp add: n_def)
    from entry [OF this] Agent_save_state_fields [OF sv [OF i]]
    have e: "s_child_ids (ss ! i) = map fst (children (objs agency ! snd (reg0 ! i)))"
      "distinct (map fst (children (objs agency ! snd (reg0 ! i))))"
      "fst ` set (children (objs agency ! snd (reg0 ! i))) \<subseteq> fst ` set reg0"
      by simp_all
    have "map_of reg c \<noteq> None" if "c \<in> set (s_child_ids (ss ! i))" for c
    proof -
      from that e(1) e(3) have "c \<in> fst ` set reg0" by auto
      then show ?thesis by (rule registered)
    qed
    then show ?thesis using e by simp
  qed
  have nowarn: "concat (map (\<lambda>st. missing_children reg (s_id st) (s_child_ids st)) ss) = []"
  proof -
    have "missing_children reg (s_id st) (s_child_ids st) = []" if "st \<in> set ss" for st
    proof -
      from that obtain i where "i < n" "st = ss ! i"
        by (auto simp: in_set_conv_nth len)
      then show ?thesis using kids [of i] by (simp add: missing_children_none)
    qed
    then show ?thesis by simp
  qed
  have keys: "map fst (agents ag') = map fst (agents agency)"
    by (simp add: ag'(2) reg_def reg0_def n_def)
  have fields: "agent_id (objs ag' ! a') = k
             \<and> parent_id (objs ag' ! a') = parent_id (objs agency ! a)
             \<and> map fst (children (objs ag' ! a')) = map fst (children (objs agency ! a))
             \<and> (\<forall>c ca. map_of (children (objs ag' ! a')) c = Some ca \<longrightarrow> map_of (agents ag') c = Some ca)
             \<and> accessible_tools (objs ag' ! a') = accessible_tools (objs agency ! a)
             \<and> message_history (objs ag' ! a') = message_history (objs agency ! a)"
    if old: "map_of (agents agency) k = Some a" and new: "map_of (agents ag') k = Some a'" for k a a'
  proof -
    from old dk have "(k, a) \<in> set reg0" by (simp add: reg0_def)
    then obtain i where i: "i < n" "reg0 ! i = (k, a)"
      by (auto simp: in_set_conv_nth n_def)
    have "map_of reg (map fst reg0 ! i) = Some ([0..<n] ! i)"
      unfolding reg_def by (rule map_of_zip_nth) (use dk i in \<open>simp_all add: n_def\<close>)
    then have "map_of reg k = Some i" using i by (simp add: n_def)
    with new have a': "a' = i" by (simp add: ag'(2))
    have o: "objs ag' ! i = relink reg (ss ! i) (Agent_load_state (ss ! i))"
      using i by (simp add: ag'(3) len)
    from Agent_save_state_fields [OF sv [OF i(1)]] i(2)
    have f: "s_id (ss ! i) = agent_id (objs agency ! a)"
      "s_parent_id (ss ! i) = parent_id (objs agency ! a)"
      "accessible_tools (objs agency ! a) = ToolsDict (s_accessible_tools (ss ! i))"
      "s_message_history (ss ! i) = message_history (objs agency ! a)"
      by simp_all
    have idk: "agent_id (objs agency ! a) = k"
      using entry [OF \<open>(k, a) \<in> set reg0\<close>] by simp
    note kk = kids [OF i(1)]
    have k1: "s_child_ids (ss ! i) = map fst (children (objs agency ! a))"
      using kk [THEN conjunct1] i(2) by simp
    have k2: "distinct (s_child_ids (ss ! i))"
      by (rule kk [THEN conjunct2, THEN conjunct1])
    have k3: "\<forall>c\<in>set (s_child_ids (ss ! i)). map_of reg c \<noteq> None"
      by (rule kk [THEN conjunct2, THEN conjunct2])
    have "map fst (linked reg (s_child_ids (ss ! i)) []) = s_child_ids (ss ! i)"
      using keys_linked_fresh [OF k2 k3, of "[]"] by simp
    then have ch: "map fst (children (objs ag' ! i)) = map fst (children (objs agency ! a))"
      by (simp add: o relink_def k1)
    have pt: "\<forall>c ca. map_of (children (objs ag' ! i)) c = Some ca \<longrightarrow> map_of (agents ag') c = Some ca"
      by (simp add: o relink_def ag'(2) map_of_linked split: if_splits)
    have r1: "agent_id (objs ag' ! i) = k" using f(1) idk by (simp add: o)
    have r2: "parent_id (objs ag' ! i) = parent_id (objs agency ! a)"
      using f(2) by (simp add: o relink_def)
    have r3: "accessible_tools (objs ag' ! i) = accessible_tools (objs agency ! a)"
      using f(3) by (simp add: o relink_def)
    have r4: "message_history (objs ag' ! i) = message_history (objs agency ! a)"
      using f(4) by (simp add: o relink_def)
    show ?thesis
      unfolding a' by (intro conjI r1 r2 ch pt r3 r4)
  qed
  have loaded: "Agency_load ws state = Inr (ag', [])"
    using ag'(1) by (simp only: nowarn)
  have every: "\<forall>k a a'. map_of (agents agency) k = Some a \<longrightarrow> map_of (agents ag') k = Some a' \<longrightarrow>
               agent_id (objs ag' ! a') = k
             \<and> parent_id (objs ag' ! a') = parent_id (objs agency ! a)
             \<and> map fst (children (objs ag' ! a')) = map fst (children (objs agency ! a))
             \<and> (\<forall>c ca. map_of (children (objs ag' ! a')) c = Some ca \<longrightarrow>
                    map_of (agents ag') c = Some ca)
             \<and> accessible_tools (objs ag' ! a') = accessible_tools (objs agency ! a)
             \<and> message_history (objs ag' ! a') = message_history (objs agency ! a)"
    by (intro allI impI) (rule fields; assumption)
  show ?thesis
  proof (intro exI conjI)
    show "Agency_save_state agency = Inr state" by (rule saved)
    show "Agency_load ws state = Inr (ag', [])" by (rule loaded)
    show "map fst (agents ag') = map fst (agents agency)" by (rule keys)
    show "\<forall>k a a'. map_of (agents agency) k = Some a \<longrightarrow> map_of (agents ag') k = Some a' \<longrightarrow>
               agent_id (objs ag' ! a') = k
             \<and> parent_id (objs ag' ! a') = parent_id (objs agency ! a)
             \<and> map fst (children (objs ag' ! a')) = map fst (children (objs agency ! a))
             \<and> (\<forall>c ca. map_of (children (objs ag' ! a')) c = Some ca \<longrightarrow>
                    map_of (agents ag') c = Some ca)
             \<and> accessible_tools (objs ag' ! a') = accessible_tools (objs agency ! a)
             \<and> message_history (objs ag' ! a') = message_history (objs agency ! a)"
      by (rule every)
  qed
qed

text \<open>A main agent with two children, each with its \<^verbatim>\<open>parent_id\<close> and a dict of tools.\<close>

definition family :: Agency where
  "family =
     \<lparr>objs =
        [(Agent_init ''main_agent'' ''0'' ''p'' ''s'' all_tools main_accessible_tools [])
           \<lparr>children := [(''1'', 1), (''2'', 2)]\<rparr>,
         (Agent_init ''a'' ''1'' ''p'' ''x'' all_tools (ToolsDict [(''internal_monologue'', True)]) [])
           \<lparr>parent_id := Some ''0''\<rparr>,
         (Agent_init ''b'' ''2'' ''p'' ''y'' all_tools (ToolsDict []) [])
           \<lparr>parent_id := Some ''0''\<rparr>],
      agents = [(''0'', 0), (''1'', 1), (''2'', 2)], main_agent = 0, default_provider = ''p'',
      current_id = 3, max_depth = 3, max_breadth = 3, max_agents = 10, workspace_id = ''w''\<rparr>"

lemma saveable_family: "saveable family"
  by (simp add: saveable_def family_def Agent_init_def main_accessible_tools_def)

theorem save_load_round_trip_witness:
  "saveable family
   \<and> (\<exists>state agency'.
           Agency_save_state family = Inr state
         \<and> Agency_load ''w'' state = Inr (agency', [])
         \<and> map fst (agents agency') = [''0'', ''1'', ''2''])"
proof -
  have k: "map fst (agents family) = [''0'', ''1'', ''2'']"
    by (simp add: family_def)
  from save_load_round_trip [OF saveable_family, of "''w''"]
  have "\<exists>state agency'.
           Agency_save_state family = Inr state
         \<and> Agency_load ''w'' state = Inr (agency', [])
         \<and> map fst (agents agency') = [''0'', ''1'', ''2'']"
    unfolding k
  proof (elim exE conjE)
    fix state agency'
    assume "Agency_save_state family = Inr state" "Agency_load ''w'' state = Inr (agency', [])"
      "map fst (agents agency') = [''0'', ''1'', ''2'']"
    then show ?thesis by (intro exI conjI)
  qed
  with saveable_family show ?thesis by (rule conjI)
qed

text \<open>
  C5 as stated fails: the fresh agency after its main agent was removed is saved, and the
  saved state is refused by the loader.
\<close>

theorem save_load_removed_main_counterexample:
  "(let (r, agency) = remove_agent_helper (Agency_init ''p'' ''w'' ''s'') ''0''
    in r = Inr ''Removed agent with ID: 0''
     \<and> (case Agency_save_state agency of
          Inl e \<Rightarrow> False
        | Inr state \<Rightarrow>
            Agency_load ''w'' state =
              Inl (ValueError ''Main agent ID not found in loaded state'')))"
  by (simp add: remove_agent_helper_def Agency_init_def Agent_init_def Let_def
      Agency_save_state_def Agency_load_def)

section \<open>What a meeting leaves unchanged\<close>

text \<open>
  \<open>eq_upto fg agency agency'\<close>: the two agencies are equal once \<open>fg\<close> has been applied to
  every object. With \<open>forget_history\<close> they differ in message histories only, with
  \<open>forget_tools\<close> in message histories and \<^verbatim>\<open>accessible_tools\<close> only.
\<close>

definition forget_history :: "Agent \<Rightarrow> Agent" where
  "forget_history x = x\<lparr>message_history := []\<rparr>"

definition forget_tools :: "Agent \<Rightarrow> Agent" where
  "forget_tools x = x\<lparr>message_history := [], accessible_tools := ToolsList\<rparr>"

definition eq_upto :: "(Agent \<Rightarrow> Agent) \<Rightarrow> Agency \<Rightarrow> Agency \<Rightarrow> bool" where
  "eq_upto fg agency agency' \<longleftrightarrow>
     agency'\<lparr>objs := map fg (objs agency')\<rparr> = agency\<lparr>objs := map fg (objs agency)\<rparr>"

lemma eq_upto_refl [simp]: "eq_upto fg agency agency"
  by (simp add: eq_upto_def)

lemma eq_upto_trans: "eq_upto fg a b \<Longrightarrow> eq_upto fg b c \<Longrightarrow> eq_upto fg a c"
  by (simp add: eq_upto_def)

lemma eq_upto_upd_obj: "(\<And>x. fg (f x) = fg x) \<Longrightarrow> eq_upto fg agency (upd_obj a f agency)"
  by (cases "a < length (objs agency)")
     (simp_all add: eq_upto_def upd_obj_def map_update list_update_beyond not_less
        list_update_same_conv)

lemma eq_upto_agents: "eq_upto fg agency agency' \<Longrightarrow> agents agency' = agents agency"
  by (drule arg_cong [where f = agents, OF eq_upto_def [THEN iffD1]]) simp

lemma eq_upto_length: "eq_upto fg agency agency' \<Longrightarrow> length (objs agency') = length (objs agency)"
  by (drule arg_cong [where f = "\<lambda>r. length (objs r)", OF eq_upto_def [THEN iffD1]]) simp

lemma eq_upto_nth:
  "eq_upto fg agency agency' \<Longrightarrow> x < length (objs agency) \<Longrightarrow>
   fg (objs agency' ! x) = fg (objs agency ! x)"
proof -
  assume e: "eq_upto fg agency agency'" and x: "x < length (objs agency)"
  from e have "map fg (objs agency') = map fg (objs agency)"
    by (drule_tac arg_cong [where f = objs, OF eq_upto_def [THEN iffD1]]) simp
  then have "map fg (objs agency') ! x = map fg (objs agency) ! x" by simp
  then show ?thesis using x eq_upto_length [OF e] by simp
qed

lemma forget_history_append [simp]: "forget_history (append_message ms x) = forget_history x"
  by (simp add: forget_history_def append_message_def)

lemma forget_tools_append [simp]: "forget_tools (append_message ms x) = forget_tools x"
  by (simp add: forget_tools_def append_message_def)

lemma forget_history_fields:
  "forget_history x = forget_history y \<Longrightarrow>
   agent_id x = agent_id y \<and> name x = name y \<and> accessible_tools x = accessible_tools y
   \<and> children x = children y \<and> parent_id x = parent_id y"
  by (cases x, cases y) (simp add: forget_history_def)

lemma forget_tools_fields:
  "forget_tools x = forget_tools y \<Longrightarrow>
   agent_id x = agent_id y \<and> name x = name y \<and> children x = children y \<and> parent_id x = parent_id y"
  by (cases x, cases y) (simp add: forget_tools_def)

lemma forget_history_tools: "forget_history x = forget_history y \<Longrightarrow> forget_tools x = forget_tools y"
  by (cases x, cases y) (simp add: forget_history_def forget_tools_def)

lemma eq_upto_history_tools:
  "eq_upto forget_history agency agency' \<Longrightarrow> eq_upto forget_tools agency agency'"
proof -
  assume e: "eq_upto forget_history agency agency'"
  have m: "map forget_tools (objs agency') = map forget_tools (objs agency)"
  proof (rule nth_equalityI)
    show "length (map forget_tools (objs agency')) = length (map forget_tools (objs agency))"
      using eq_upto_length [OF e] by simp
  next
    fix i assume "i < length (map forget_tools (objs agency'))"
    then have i: "i < length (objs agency)" using eq_upto_length [OF e] by simp
    from eq_upto_nth [OF e i] have "forget_tools (objs agency' ! i) = forget_tools (objs agency ! i)"
      by (rule forget_history_tools)
    then show "map forget_tools (objs agency') ! i = map forget_tools (objs agency) ! i"
      using i eq_upto_length [OF e] by simp
  qed
  from e have "agency'\<lparr>objs := []\<rparr> = agency\<lparr>objs := []\<rparr>"
    by (drule_tac arg_cong [where f = "\<lambda>r. r\<lparr>objs := []\<rparr>", OF eq_upto_def [THEN iffD1]]) simp
  then have "agency'\<lparr>objs := []\<rparr>\<lparr>objs := map forget_tools (objs agency)\<rparr>
           = agency\<lparr>objs := []\<rparr>\<lparr>objs := map forget_tools (objs agency)\<rparr>"
    by simp
  then show ?thesis by (simp add: eq_upto_def m)
qed

lemma broadcast_eq_upto: "eq_upto forget_history agency (broadcast ps speaker m agency)"
proof (induction ps arbitrary: agency)
  case Nil
  show ?case by simp
next
  case (Cons p ps)
  define ag1 where "ag1 = (if agent_id (objs agency ! p) \<noteq> speaker
        then upd_obj p (append_message [m]) agency else agency)"
  have "eq_upto forget_history agency ag1"
    by (simp add: ag1_def eq_upto_upd_obj)
  from eq_upto_trans [OF this Cons.IH [of ag1]] show ?case
    by (simp add: ag1_def)
qed

lemma append_to_all_eq_upto: "eq_upto forget_history agency (append_to_all cs m agency)"
proof (induction cs arbitrary: agency)
  case Nil
  show ?case by simp
next
  case (Cons c cs)
  have "eq_upto forget_history agency (upd_obj c (append_message [m]) agency)"
    by (simp add: eq_upto_upd_obj)
  from eq_upto_trans [OF this Cons.IH] show ?case by simp
qed

lemma Agent_run_eq_upto: "eq_upto forget_history agency (snd (Agent_run be t a p agency))"
  by (auto simp: Agent_run_def eq_upto_upd_obj split: sum.splits)

lemma meeting_turn_eq_upto:
  "eq_upto forget_history (m_agency st) (m_agency (snd (meeting_turn be ps th h a st)))"
proof (cases "be (turn st + 1) (objs (m_agency st) ! a) YOUR_TURN_PHRASE")
  case (Inl e)
  then show ?thesis by (simp add: meeting_turn_def Agent_run_def Let_def)
next
  case (Inr r)
  then show ?thesis
    by (auto simp: meeting_turn_def Agent_run_def Let_def
        intro: eq_upto_trans [OF eq_upto_upd_obj broadcast_eq_upto])
qed

lemma meeting_round_eq_upto:
  "eq_upto forget_history (m_agency st) (m_agency (meeting_round be ps th h as st))"
proof (induction as arbitrary: st)
  case Nil
  show ?case by simp
next
  case (Cons a as)
  obtain b st' where t: "meeting_turn be ps th h a st = (b, st')" by (cases "meeting_turn be ps th h a st")
  have e: "eq_upto forget_history (m_agency st) (m_agency st')"
    using meeting_turn_eq_upto [of st be ps th h a] by (simp add: t)
  show ?case
    using e eq_upto_trans [OF e Cons.IH [of st']] by (cases b) (simp_all add: t)
qed

lemma meeting_rounds_eq_upto:
  "eq_upto forget_history (m_agency st) (m_agency (meeting_rounds k be ps th h mr st))"
proof (induction k arbitrary: st)
  case 0
  show ?case by simp
next
  case (Suc k)
  show ?case
    using meeting_round_eq_upto [of st be ps th h ps]
      eq_upto_trans [OF meeting_round_eq_upto [of st be ps th h ps] Suc.IH]
    by (simp add: Let_def)
qed

lemma forget_tools_clear [simp]: "forget_tools (x\<lparr>accessible_tools := t\<rparr>) = forget_tools x"
  by (simp add: forget_tools_def)

lemma agent_id_upd_obj:
  "(\<And>x. agent_id (f x) = agent_id x) \<Longrightarrow>
   agent_id (objs (upd_obj a f agency) ! b) = agent_id (objs agency ! b)"
  by (simp add: objs_upd_obj)

lemma strip_tools_spec:
  assumes "\<forall>c\<in>set cs. c < length (objs ag)"
    and "distinct (map (\<lambda>c. agent_id (objs ag ! c)) cs)"
  shows "\<exists>orig' ag'. strip_tools cs (orig, ag) = (orig', ag')
      \<and> eq_upto forget_tools ag ag'
      \<and> (\<forall>c\<in>set cs. accessible_tools (objs ag' ! c) = ToolsDict []
            \<and> map_of orig' (agent_id (objs ag ! c)) = Some (accessible_tools (objs ag ! c)))
      \<and> (\<forall>x. x \<notin> set cs \<longrightarrow> objs ag' ! x = objs ag ! x)
      \<and> (\<forall>k. k \<notin> (\<lambda>c. agent_id (objs ag ! c)) ` set cs \<longrightarrow> map_of orig' k = map_of orig k)"
  using assms
proof (induction cs arbitrary: orig ag)
  case Nil
  show ?case by simp
next
  case (Cons c cs)
  define orig1 where "orig1 = AList.update (agent_id (objs ag ! c)) (accessible_tools (objs ag ! c)) orig"
  define ag1 where "ag1 = upd_obj c (\<lambda>x. x\<lparr>accessible_tools := ToolsDict []\<rparr>) ag"
  have ids: "agent_id (objs ag1 ! x) = agent_id (objs ag ! x)" for x
    by (simp add: ag1_def agent_id_upd_obj)
  have c_lt: "c < length (objs ag)" using Cons.prems(1) by simp
  have c_new: "c \<notin> set cs" using Cons.prems(2) by auto
  have id_new: "agent_id (objs ag ! c) \<notin> (\<lambda>c. agent_id (objs ag ! c)) ` set cs"
    using Cons.prems(2) by auto
  have p1: "\<forall>c\<in>set cs. c < length (objs ag1)" using Cons.prems(1) by (simp add: ag1_def)
  have p2: "distinct (map (\<lambda>c. agent_id (objs ag1 ! c)) cs)"
    using Cons.prems(2) by (simp add: ids)
  from Cons.IH [OF p1 p2, of orig1] obtain orig' ag' where r:
    "strip_tools cs (orig1, ag1) = (orig', ag')"
    "eq_upto forget_tools ag1 ag'"
    "\<forall>c\<in>set cs. accessible_tools (objs ag' ! c) = ToolsDict []
            \<and> map_of orig' (agent_id (objs ag1 ! c)) = Some (accessible_tools (objs ag1 ! c))"
    "\<forall>x. x \<notin> set cs \<longrightarrow> objs ag' ! x = objs ag1 ! x"
    "\<forall>k. k \<notin> (\<lambda>c. agent_id (objs ag1 ! c)) ` set cs \<longrightarrow> map_of orig' k = map_of orig1 k"
    by blast
  have s: "strip_tools (c # cs) (orig, ag) = (orig', ag')"
    using r(1) by (simp add: orig1_def ag1_def)
  have e: "eq_upto forget_tools ag ag'"
    by (rule eq_upto_trans [OF _ r(2)]) (simp add: ag1_def eq_upto_upd_obj)
  have other: "objs ag1 ! c' = objs ag ! c'" if "c' \<in> set cs" for c'
    using that c_new by (auto simp: ag1_def objs_upd_obj)
  have t1: "accessible_tools (objs ag' ! c') = ToolsDict []
            \<and> map_of orig' (agent_id (objs ag ! c')) = Some (accessible_tools (objs ag ! c'))"
    if "c' \<in> set cs" for c'
    using r(3) [rule_format, OF that] other [OF that] by (simp add: ids)
  have "objs ag' ! c = objs ag1 ! c" using r(4) c_new by simp
  then have t2: "accessible_tools (objs ag' ! c) = ToolsDict []"
    using c_lt by (simp add: ag1_def objs_upd_obj)
  have "map_of orig' (agent_id (objs ag ! c)) = map_of orig1 (agent_id (objs ag ! c))"
    using r(5) id_new by (simp add: ids)
  then have t3: "map_of orig' (agent_id (objs ag ! c)) = Some (accessible_tools (objs ag ! c))"
    by (simp add: orig1_def update_conv')
  have f1: "\<forall>x. x \<notin> set (c # cs) \<longrightarrow> objs ag' ! x = objs ag ! x"
    using r(4) by (auto simp: ag1_def objs_upd_obj)
  have f2: "\<forall>k. k \<notin> (\<lambda>c. agent_id (objs ag ! c)) ` set (c # cs) \<longrightarrow> map_of orig' k = map_of orig k"
    using r(5) by (auto simp: ids orig1_def update_conv')
  show ?case
    using s e t1 t2 t3 f1 f2 by (intro exI [of _ orig'] exI [of _ ag']) simp
qed

definition restored :: "(string \<times> tools_val) list \<Rightarrow> Agent \<Rightarrow> Agent" where
  "restored original x =
     x\<lparr>accessible_tools := (case map_of original (agent_id x) of None \<Rightarrow> ToolsDict [] | Some t \<Rightarrow> t)\<rparr>"

lemma restore_tools_step:
  "restore_tools (c # cs) original ag = restore_tools cs original (upd_obj c (restored original) ag)"
  by (simp add: restored_def [abs_def])

lemma restore_tools_spec:
  "eq_upto forget_tools ag (restore_tools cs original ag)
   \<and> (\<forall>c\<in>set cs. c < length (objs ag) \<longrightarrow>
         accessible_tools (objs (restore_tools cs original ag) ! c) =
           (case map_of original (agent_id (objs ag ! c)) of None \<Rightarrow> ToolsDict [] | Some t \<Rightarrow> t))
   \<and> (\<forall>x. x \<notin> set cs \<longrightarrow> objs (restore_tools cs original ag) ! x = objs ag ! x)"
proof (induction cs arbitrary: ag)
  case Nil
  show ?case by simp
next
  case (Cons c cs)
  define ag1 where "ag1 = upd_obj c (restored original) ag"
  define ag' where "ag' = restore_tools cs original ag1"
  note ih = Cons.IH [of ag1, folded ag'_def]
  have e1: "eq_upto forget_tools ag ag1"
    by (simp add: ag1_def eq_upto_upd_obj restored_def)
  have ids: "agent_id (objs ag1 ! x) = agent_id (objs ag ! x)" for x
    by (simp add: ag1_def agent_id_upd_obj restored_def)
  have r: "restore_tools (c # cs) original ag = ag'"
    by (simp only: restore_tools_step ag'_def ag1_def)
  have e: "eq_upto forget_tools ag ag'"
    using eq_upto_trans [OF e1] ih by simp
  have t: "accessible_tools (objs ag' ! c') =
           (case map_of original (agent_id (objs ag ! c')) of None \<Rightarrow> ToolsDict [] | Some t \<Rightarrow> t)"
    if m: "c' \<in> set (c # cs)" and l: "c' < length (objs ag)" for c'
  proof (cases "c' \<in> set cs")
    case True
    have "length (objs ag1) = length (objs ag)" by (simp add: ag1_def)
    then show ?thesis using True ih l by (simp add: ids)
  next
    case False
    then have "c' = c" using m by simp
    moreover have "objs ag' ! c = objs ag1 ! c" using ih False \<open>c' = c\<close> by simp
    ultimately show ?thesis using l by (simp add: ag1_def objs_upd_obj restored_def)
  qed
  have f: "\<forall>x. x \<notin> set (c # cs) \<longrightarrow> objs ag' ! x = objs ag ! x"
    using ih by (auto simp: ag1_def objs_upd_obj)
  show ?case
    unfolding r using e t f by simp
qed

lemma strip_tools_eq_upto: "eq_upto forget_tools ag (snd (strip_tools cs (orig, ag)))"
proof (induction cs arbitrary: orig ag)
  case Nil
  show ?case by simp
next
  case (Cons c cs)
  have "eq_upto forget_tools ag (upd_obj c (\<lambda>x. x\<lparr>accessible_tools := ToolsDict []\<rparr>) ag)"
    by (simp add: eq_upto_upd_obj)
  from eq_upto_trans [OF this Cons.IH] show ?case by simp
qed

text \<open>The temporary host that \<^verbatim>\<open>call_meeting\<close> builds (lines 349-366).\<close>

definition temp_host_of :: "Agent \<Rightarrow> string \<Rightarrow> string option \<Rightarrow> Agent" where
  "temp_host_of host host_id ctx_prompt =
     (Agent_init (name host @ '' [Active Host]'') (host_id @ ''_temp'') (provider host)
        (system_prompt host) (tools host) (ToolsDict []) [])
       \<lparr>message_history := message_history host @
          [ModelRequest [UserPromptPart
             (case ctx_prompt of None \<Rightarrow> ''Meeting called''
              | Some p \<Rightarrow> if p = [] then ''Meeting called'' else p)]]\<rparr>"

definition with_temp_host :: "Agency \<Rightarrow> string \<Rightarrow> addr \<Rightarrow> string option \<Rightarrow> Agency" where
  "with_temp_host agency host_id h ctx_prompt =
     agency\<lparr>objs := objs agency @ [temp_host_of (objs agency ! h) host_id ctx_prompt],
            agents := AList.update (host_id @ ''_temp'') (length (objs agency)) (agents agency)\<rparr>"

lemma meeting_setup_unfold:
  "meeting_setup agency host_id h ctx_prompt objective max_turns =
     (let cs = map snd (children (objs agency ! h));
          t = length (objs agency);
          s = strip_tools cs ([], with_temp_host agency host_id h ctx_prompt);
          init = ModelRequest [UserPromptPart (''Meeting initialized with objective: '' @ objective)]
      in \<lparr>ms_agency =
            upd_obj t (append_message [ModelRequest [UserPromptPart host_instructions]])
              (append_to_all cs (ModelRequest [UserPromptPart child_instructions])
                 (append_to_all cs init (upd_obj t (append_message [init]) (snd s)))),
          ms_temp_host = t, ms_children = cs, ms_original = fst s,
          ms_log = [\<lparr>agent_name = name (objs (snd s) ! t), log_agent_id = agent_id (objs (snd s) ! t),
                     message = ''Meeting initialized with objective: '' @ objective\<rparr>],
          ms_max_rounds = min (max_turns * int (length (t # cs))) 15\<rparr>)"
  by (simp add: meeting_setup_def Let_def with_temp_host_def temp_host_of_def split: prod.splits)

lemma meeting_setup_sel [simp]:
  "ms_temp_host (meeting_setup agency host_id h ctx_prompt objective max_turns) = length (objs agency)"
  "ms_children (meeting_setup agency host_id h ctx_prompt objective max_turns) =
     map snd (children (objs agency ! h))"
  "ms_max_rounds (meeting_setup agency host_id h ctx_prompt objective max_turns) =
     min (max_turns * int (Suc (length (children (objs agency ! h))))) 15"
  by (simp_all add: meeting_setup_unfold Let_def)

lemma meeting_setup_eq_upto:
  "eq_upto forget_tools (with_temp_host agency host_id h ctx_prompt)
     (ms_agency (meeting_setup agency host_id h ctx_prompt objective max_turns))"
proof -
  let ?cs = "map snd (children (objs agency ! h))"
  let ?t = "length (objs agency)"
  let ?ag1 = "with_temp_host agency host_id h ctx_prompt"
  let ?ag2 = "snd (strip_tools ?cs ([], ?ag1))"
  let ?init = "ModelRequest [UserPromptPart (''Meeting initialized with objective: '' @ objective)]"
  let ?ag3 = "upd_obj ?t (append_message [?init]) ?ag2"
  let ?ag4 = "append_to_all ?cs ?init ?ag3"
  let ?ag5 = "append_to_all ?cs (ModelRequest [UserPromptPart child_instructions]) ?ag4"
  let ?ag6 = "upd_obj ?t (append_message [ModelRequest [UserPromptPart host_instructions]]) ?ag5"
  have e2: "eq_upto forget_tools ?ag1 ?ag2" by (rule strip_tools_eq_upto)
  have e3: "eq_upto forget_tools ?ag2 ?ag3" by (simp add: eq_upto_upd_obj)
  have e4: "eq_upto forget_tools ?ag3 ?ag4"
    by (rule eq_upto_history_tools [OF append_to_all_eq_upto])
  have e5: "eq_upto forget_tools ?ag4 ?ag5"
    by (rule eq_upto_history_tools [OF append_to_all_eq_upto])
  have e6: "eq_upto forget_tools ?ag5 ?ag6" by (simp add: eq_upto_upd_obj)
  have "eq_upto forget_tools ?ag1 ?ag6"
    by (rule eq_upto_trans [OF eq_upto_trans [OF eq_upto_trans [OF eq_upto_trans [OF e2 e3] e4] e5] e6])
  then show ?thesis by (simp add: meeting_setup_unfold Let_def)
qed

lemma meeting_setup_agents:
  "agents (ms_agency (meeting_setup agency host_id h ctx_prompt objective max_turns)) =
     AList.update (host_id @ ''_temp'') (length (objs agency)) (agents agency)"
  using eq_upto_agents [OF meeting_setup_eq_upto [of agency host_id h ctx_prompt objective max_turns]]
  by (simp add: with_temp_host_def)

lemma meeting_setup_length:
  "length (objs (ms_agency (meeting_setup agency host_id h ctx_prompt objective max_turns))) =
     Suc (length (objs agency))"
  using eq_upto_length [OF meeting_setup_eq_upto [of agency host_id h ctx_prompt objective max_turns]]
  by (simp add: with_temp_host_def)

lemma meeting_setup_ids:
  "x \<le> length (objs agency) \<Longrightarrow>
   agent_id (objs (ms_agency (meeting_setup agency host_id h ctx_prompt objective max_turns)) ! x) =
     (if x = length (objs agency) then host_id @ ''_temp'' else agent_id (objs agency ! x))
   \<and> name (objs (ms_agency (meeting_setup agency host_id h ctx_prompt objective max_turns)) ! x) =
     (if x = length (objs agency) then name (objs agency ! h) @ '' [Active Host]''
      else name (objs agency ! x))"
proof -
  assume x: "x \<le> length (objs agency)"
  let ?ms = "meeting_setup agency host_id h ctx_prompt objective max_turns"
  have "x < length (objs (with_temp_host agency host_id h ctx_prompt))"
    using x by (simp add: with_temp_host_def)
  from eq_upto_nth [OF meeting_setup_eq_upto this, of objective max_turns]
  have "forget_tools (objs (ms_agency ?ms) ! x) =
        forget_tools (objs (with_temp_host agency host_id h ctx_prompt) ! x)" .
  from forget_tools_fields [OF this] show ?thesis
    using x by (simp add: with_temp_host_def nth_append temp_host_of_def Agent_init_def)
qed

lemma meeting_setup_after_strip:
  "ms_original (meeting_setup agency host_id h ctx_prompt objective max_turns) =
     fst (strip_tools (map snd (children (objs agency ! h)))
            ([], with_temp_host agency host_id h ctx_prompt))
   \<and> eq_upto forget_history
        (snd (strip_tools (map snd (children (objs agency ! h)))
                ([], with_temp_host agency host_id h ctx_prompt)))
        (ms_agency (meeting_setup agency host_id h ctx_prompt objective max_turns))"
proof -
  let ?cs = "map snd (children (objs agency ! h))"
  let ?t = "length (objs agency)"
  let ?ag2 = "snd (strip_tools ?cs ([], with_temp_host agency host_id h ctx_prompt))"
  let ?init = "ModelRequest [UserPromptPart (''Meeting initialized with objective: '' @ objective)]"
  let ?ag3 = "upd_obj ?t (append_message [?init]) ?ag2"
  let ?ag4 = "append_to_all ?cs ?init ?ag3"
  let ?ag5 = "append_to_all ?cs (ModelRequest [UserPromptPart child_instructions]) ?ag4"
  let ?ag6 = "upd_obj ?t (append_message [ModelRequest [UserPromptPart host_instructions]]) ?ag5"
  have e3: "eq_upto forget_history ?ag2 ?ag3" by (simp add: eq_upto_upd_obj)
  have e4: "eq_upto forget_history ?ag3 ?ag4" by (rule append_to_all_eq_upto)
  have e5: "eq_upto forget_history ?ag4 ?ag5" by (rule append_to_all_eq_upto)
  have e6: "eq_upto forget_history ?ag5 ?ag6" by (simp add: eq_upto_upd_obj)
  have "eq_upto forget_history ?ag2 ?ag6"
    by (rule eq_upto_trans [OF eq_upto_trans [OF eq_upto_trans [OF e3 e4] e5] e6])
  then show ?thesis by (simp add: meeting_setup_unfold Let_def)
qed

lemma meeting_run_eq_upto:
  "eq_upto forget_history (ms_agency ms) (m_agency (meeting_run be host_id ms))"
  using meeting_rounds_eq_upto
    [of "\<lparr>m_agency = ms_agency ms, discussion_log = ms_log ms, agents_done = [], turn = 0\<rparr>"]
  by (simp add: meeting_run_def)

lemma meeting_finish_agents:
  "agents (snd (meeting_finish host_id ms st)) =
     AList.delete (host_id @ ''_temp'') (agents (m_agency st))"
proof -
  let ?ag1 = "restore_tools (ms_children ms) (ms_original ms) (m_agency st)"
  let ?ag2 = "append_to_all (ms_children ms) (ModelRequest [UserPromptPart meeting_end_message]) ?ag1"
  have "agents ?ag1 = agents (m_agency st)"
    by (rule eq_upto_agents
        [OF restore_tools_spec [of "m_agency st" "ms_children ms" "ms_original ms", THEN conjunct1]])
  moreover have "agents ?ag2 = agents ?ag1"
    by (rule eq_upto_agents [OF append_to_all_eq_upto])
  ultimately show ?thesis
    by (simp add: meeting_finish_def Let_def)
qed

lemma meeting_finish_objs:
  "objs (snd (meeting_finish host_id ms st)) =
     objs (append_to_all (ms_children ms) (ModelRequest [UserPromptPart meeting_end_message])
             (restore_tools (ms_children ms) (ms_original ms) (m_agency st)))"
  by (simp add: meeting_finish_def Let_def)

lemma call_meeting_unfold:
  "map_of (agents agency) host_id = Some h \<Longrightarrow> children (objs agency ! h) \<noteq> [] \<Longrightarrow>
   call_meeting be agency host_id ctx_prompt objective max_turns =
     (Inr (fst (meeting_finish host_id
                  (meeting_setup agency host_id h ctx_prompt objective max_turns)
                  (meeting_run be host_id
                     (meeting_setup agency host_id h ctx_prompt objective max_turns)))),
      snd (meeting_finish host_id
             (meeting_setup agency host_id h ctx_prompt objective max_turns)
             (meeting_run be host_id
                (meeting_setup agency host_id h ctx_prompt objective max_turns))))"
  by (simp add: call_meeting_def Let_def split: prod.splits)

lemma meeting_run_temp_host_id:
  "agent_id (objs (m_agency (meeting_run be host_id
       (meeting_setup agency host_id h ctx_prompt objective max_turns))) ! length (objs agency)) =
     host_id @ ''_temp''"
proof -
  let ?ms = "meeting_setup agency host_id h ctx_prompt objective max_turns"
  let ?st = "meeting_run be host_id ?ms"
  have l: "length (objs agency) < length (objs (ms_agency ?ms))"
    by (simp add: meeting_setup_length)
  have "forget_history (objs (m_agency ?st) ! length (objs agency)) =
        forget_history (objs (ms_agency ?ms) ! length (objs agency))"
    by (rule eq_upto_nth [OF meeting_run_eq_upto l])
  from forget_history_fields [OF this] show ?thesis
    using meeting_setup_ids [of "length (objs agency)" agency host_id h ctx_prompt objective max_turns]
    by simp
qed

section \<open>The temporary host and the registry\<close>

text \<open>
  C4 (as amended). The temporary host is registered under the synthetic id (the host's id
  followed by \<^verbatim>\<open>_temp\<close>) when the loop of the meeting starts and is still registered when the
  loop ends; when \<^verbatim>\<open>call_meeting\<close> returns, the registry is the one before the meeting without
  the synthetic id, so no lookup finds it and \<^verbatim>\<open>save_state\<close>, which walks the registry, saves
  no record for it.
\<close>

theorem call_meeting_temp_host_registry:
  assumes "map_of (agents agency) host_id = Some h"
    and "children (objs agency ! h) \<noteq> []"
  shows "(let ms = meeting_setup agency host_id h ctx_prompt objective max_turns;
              st = meeting_run be host_id ms;
              agency' = snd (call_meeting be agency host_id ctx_prompt objective max_turns)
          in map_of (agents (ms_agency ms)) (host_id @ ''_temp'') = Some (length (objs agency))
           \<and> map_of (agents (m_agency st)) (host_id @ ''_temp'') = Some (length (objs agency))
           \<and> agent_id (objs (m_agency st) ! length (objs agency)) = host_id @ ''_temp''
           \<and> agents agency' = AList.delete (host_id @ ''_temp'') (agents agency)
           \<and> host_id @ ''_temp'' \<notin> fst ` set (agents agency'))"
proof -
  let ?ms = "meeting_setup agency host_id h ctx_prompt objective max_turns"
  let ?st = "meeting_run be host_id ?ms"
  let ?temp = "host_id @ ''_temp''"
  have a1: "agents (ms_agency ?ms) = AList.update ?temp (length (objs agency)) (agents agency)"
    by (rule meeting_setup_agents)
  have a2: "agents (m_agency ?st) = agents (ms_agency ?ms)"
    by (rule eq_upto_agents [OF meeting_run_eq_upto])
  have i: "agent_id (objs (m_agency ?st) ! length (objs agency)) = ?temp"
    by (rule meeting_run_temp_host_id)
  have a3: "agents (snd (call_meeting be agency host_id ctx_prompt objective max_turns)) =
      AList.delete ?temp (agents agency)"
    by (simp add: call_meeting_unfold [OF assms] meeting_finish_agents a2 a1 delete_update_same)
  show ?thesis
    using i by (simp add: Let_def a1 a2 a3 update_conv' delete_notin_dom)
qed

text \<open>A backend that is down: every call raises.\<close>

definition failing_backend :: backend where
  "failing_backend t a p = Inl ''backend down''"

lemma family_sel:
  "length (objs family) = 3" "map_of (agents family) ''0'' = Some 0"
  "children (objs family ! 0) = [(''1'', 1), (''2'', 2)]"
  "agents family = [(''0'', 0), (''1'', 1), (''2'', 2)]"
  by (simp_all add: family_def)

theorem call_meeting_temp_host_registry_witness:
  "map_of (agents family) ''0'' = Some 0
   \<and> children (objs family ! 0) \<noteq> []
   \<and> map fst (agents (snd (call_meeting failing_backend family ''0'' None ''plan'' 2))) =
       [''0'', ''1'', ''2'']"
proof -
  have a: "map_of (agents family) ''0'' = Some 0" by (simp add: family_sel)
  have c: "children (objs family ! 0) \<noteq> []" by (simp add: family_sel)
  from call_meeting_temp_host_registry [OF a c, of None "''plan''" 2 failing_backend]
  have "agents (snd (call_meeting failing_backend family ''0'' None ''plan'' 2)) =
          AList.delete (''0'' @ ''_temp'') (agents family)"
    by (simp add: Let_def)
  then have "map fst (agents (snd (call_meeting failing_backend family ''0'' None ''plan'' 2))) =
       [''0'', ''1'', ''2'']"
    by (simp add: family_sel)
  with a c show ?thesis by simp
qed

text \<open>
  C4 as stated fails: in a meeting of the main agent \<^verbatim>\<open>"0"\<close> with its two children the
  synthetic id \<^verbatim>\<open>"0_temp"\<close>, which was not registered before, is registered when the loop
  starts and when it ends, and the lookup gives the temporary host.
\<close>

theorem temp_host_registered_counterexample:
  "(let ms = meeting_setup family ''0'' 0 None ''plan'' 2;
        st = meeting_run failing_backend ''0'' ms
    in map_of (agents family) ''0_temp'' = None
     \<and> map_of (agents (ms_agency ms)) ''0_temp'' = Some 3
     \<and> map_of (agents (m_agency st)) ''0_temp'' = Some 3
     \<and> agent_id (objs (m_agency st) ! 3) = ''0_temp'')"
proof -
  let ?ms = "meeting_setup family ''0'' 0 None ''plan'' 2"
  let ?st = "meeting_run failing_backend ''0'' ?ms"
  have a1: "agents (ms_agency ?ms) = AList.update ''0_temp'' 3 (agents family)"
    using meeting_setup_agents [of family "''0''" 0 None "''plan''" 2] by (simp add: family_sel)
  have a2: "agents (m_agency ?st) = agents (ms_agency ?ms)"
    by (rule eq_upto_agents [OF meeting_run_eq_upto])
  have i: "agent_id (objs (m_agency ?st) ! 3) = ''0_temp''"
    using meeting_run_temp_host_id [of failing_backend "''0''" family 0 None "''plan''" 2]
    by (simp add: family_sel)
  show ?thesis
    using i by (simp add: Let_def a2 a1 update_conv' family_sel)
qed

section \<open>The children's tools around a meeting\<close>

text \<open>
  C6. Let the children of the host be valid references to agents with distinct ids (the
  keys of the host's \<^verbatim>\<open>children\<close> dict are the children's ids). Then every child's
  \<^verbatim>\<open>accessible_tools\<close> is the empty dict when the loop of the meeting starts and when it ends,
  and when \<^verbatim>\<open>call_meeting\<close> returns it is what it was before the call.
\<close>

theorem call_meeting_restores_tools:
  assumes reg: "map_of (agents agency) host_id = Some h"
    and valid: "\<forall>c\<in>set (map snd (children (objs agency ! h))). c < length (objs agency)"
    and ids: "distinct (map (\<lambda>c. agent_id (objs agency ! c)) (map snd (children (objs agency ! h))))"
  shows "\<forall>c\<in>set (map snd (children (objs agency ! h))).
           accessible_tools
             (objs (ms_agency (meeting_setup agency host_id h ctx_prompt objective max_turns)) ! c)
             = ToolsDict []
         \<and> accessible_tools
             (objs (m_agency (meeting_run be host_id
                (meeting_setup agency host_id h ctx_prompt objective max_turns))) ! c)
             = ToolsDict []
         \<and> accessible_tools
             (objs (snd (call_meeting be agency host_id ctx_prompt objective max_turns)) ! c)
             = accessible_tools (objs agency ! c)"
proof (cases "children (objs agency ! h) = []")
  case True
  then show ?thesis by simp
next
  case False
  let ?cs = "map snd (children (objs agency ! h))"
  let ?ms = "meeting_setup agency host_id h ctx_prompt objective max_turns"
  let ?st = "meeting_run be host_id ?ms"
  let ?ag1 = "with_temp_host agency host_id h ctx_prompt"
  have same: "objs ?ag1 ! c = objs agency ! c" if "c \<in> set ?cs" for c
  proof -
    from valid that have "c < length (objs agency)" by (rule bspec)
    then show ?thesis by (simp add: with_temp_host_def nth_append)
  qed
  have v1: "\<forall>c\<in>set ?cs. c < length (objs ?ag1)"
    using valid by (auto simp: with_temp_host_def)
  have meq: "map (\<lambda>c. agent_id (objs ?ag1 ! c)) ?cs = map (\<lambda>c. agent_id (objs agency ! c)) ?cs"
    by (rule map_cong) (simp_all only: same)
  have d1: "distinct (map (\<lambda>c. agent_id (objs ?ag1 ! c)) ?cs)"
    unfolding meq by (rule ids)
  from strip_tools_spec [OF v1 d1, of "[]"] obtain orig ag2 where s:
    "strip_tools ?cs ([], ?ag1) = (orig, ag2)"
    "\<forall>c\<in>set ?cs. accessible_tools (objs ag2 ! c) = ToolsDict []
         \<and> map_of orig (agent_id (objs ?ag1 ! c)) = Some (accessible_tools (objs ?ag1 ! c))"
    "eq_upto forget_tools ?ag1 ag2"
    by blast
  have orig: "ms_original ?ms = orig"
    and e_setup: "eq_upto forget_history ag2 (ms_agency ?ms)"
    using meeting_setup_after_strip [of agency host_id h ctx_prompt objective max_turns]
    by (simp_all add: s(1))
  have e_run: "eq_upto forget_history ag2 (m_agency ?st)"
    by (rule eq_upto_trans [OF e_setup meeting_run_eq_upto])
  have len2: "length (objs ag2) = length (objs ?ag1)"
    by (rule eq_upto_length [OF s(3)])
  have each: "accessible_tools (objs (ms_agency ?ms) ! c) = ToolsDict []
         \<and> accessible_tools (objs (m_agency ?st) ! c) = ToolsDict []
         \<and> accessible_tools
             (objs (snd (call_meeting be agency host_id ctx_prompt objective max_turns)) ! c)
             = accessible_tools (objs agency ! c)"
    if c: "c \<in> set ?cs" for c
  proof -
    from v1 c have c1: "c < length (objs ?ag1)" by (rule bspec)
    then have c2: "c < length (objs ag2)" by (simp add: len2)
    have t2: "accessible_tools (objs ag2 ! c) = ToolsDict []"
      and o: "map_of orig (agent_id (objs agency ! c)) = Some (accessible_tools (objs agency ! c))"
      using s(2) [rule_format, OF c] by (simp_all add: same [OF c])
    from forget_history_fields [OF eq_upto_nth [OF e_setup c2]]
    have r1: "accessible_tools (objs (ms_agency ?ms) ! c) = ToolsDict []"
      by (simp add: t2)
    from forget_history_fields [OF eq_upto_nth [OF e_run c2]]
    have r2: "accessible_tools (objs (m_agency ?st) ! c) = ToolsDict []"
      and i2: "agent_id (objs (m_agency ?st) ! c) = agent_id (objs ag2 ! c)"
      by (simp_all add: t2)
    from forget_tools_fields [OF eq_upto_nth [OF s(3) c1]]
    have i1: "agent_id (objs ag2 ! c) = agent_id (objs agency ! c)"
      by (simp add: same [OF c])
    have c3: "c < length (objs (m_agency ?st))"
      using eq_upto_length [OF e_run] c2 by simp
    let ?r = "restore_tools ?cs orig (m_agency ?st)"
    have "accessible_tools (objs ?r ! c) =
        (case map_of orig (agent_id (objs (m_agency ?st) ! c)) of None \<Rightarrow> ToolsDict [] | Some t \<Rightarrow> t)"
      by (rule restore_tools_spec [of "m_agency ?st" ?cs orig, THEN conjunct2, THEN conjunct1,
            rule_format, OF c c3])
    then have t3: "accessible_tools (objs ?r ! c) = accessible_tools (objs agency ! c)"
      by (simp add: i2 i1 o)
    let ?e = "append_to_all ?cs (ModelRequest [UserPromptPart meeting_end_message]) ?r"
    have "length (objs ?r) = length (objs (m_agency ?st))"
      by (rule eq_upto_length [OF restore_tools_spec [THEN conjunct1]])
    then have c4: "c < length (objs ?r)" using c3 by simp
    from forget_history_fields [OF eq_upto_nth [OF append_to_all_eq_upto c4]]
    have t4: "accessible_tools (objs ?e ! c) = accessible_tools (objs agency ! c)"
      by (simp add: t3)
    have r3: "accessible_tools
             (objs (snd (call_meeting be agency host_id ctx_prompt objective max_turns)) ! c)
             = accessible_tools (objs agency ! c)"
      using t4 by (simp add: call_meeting_unfold [OF reg False] meeting_finish_objs orig)
    show ?thesis using r1 r2 r3 by simp
  qed
  show ?thesis by (intro ballI) (rule each)
qed

theorem call_meeting_restores_tools_witness:
  "map_of (agents family) ''0'' = Some 0
   \<and> map snd (children (objs family ! 0)) = [1, 2]
   \<and> length (objs family) = 3
   \<and> map (\<lambda>c. agent_id (objs family ! c)) [1, 2] = [''1'', ''2'']
   \<and> accessible_tools (objs family ! 1) = ToolsDict [(''internal_monologue'', True)]
   \<and> accessible_tools (objs (ms_agency (meeting_setup family ''0'' 0 None ''plan'' 2)) ! 1)
       = ToolsDict []
   \<and> accessible_tools
        (objs (snd (call_meeting failing_backend family ''0'' None ''plan'' 2)) ! 1)
       = ToolsDict [(''internal_monologue'', True)]"
proof -
  have a: "map_of (agents family) ''0'' = Some 0" by (simp add: family_sel)
  have k: "map snd (children (objs family ! 0)) = [1, 2]" by (simp add: family_sel)
  have l: "length (objs family) = 3" by (simp add: family_sel)
  have i: "map (\<lambda>c. agent_id (objs family ! c)) [1, 2] = [''1'', ''2'']"
    by (simp add: family_def Agent_init_def)
  have t: "accessible_tools (objs family ! 1) = ToolsDict [(''internal_monologue'', True)]"
    by (simp add: family_def Agent_init_def)
  have v: "\<forall>c\<in>set (map snd (children (objs family ! 0))). c < length (objs family)"
    unfolding k l by simp
  have d: "distinct (map (\<lambda>c. agent_id (objs family ! c)) (map snd (children (objs family ! 0))))"
    unfolding k i by simp
  from call_meeting_restores_tools [OF a v d, of None "''plan''" 2 failing_backend]
  have "accessible_tools (objs (ms_agency (meeting_setup family ''0'' 0 None ''plan'' 2)) ! 1)
       = ToolsDict []
     \<and> accessible_tools
        (objs (snd (call_meeting failing_backend family ''0'' None ''plan'' 2)) ! 1)
       = accessible_tools (objs family ! 1)"
    unfolding k by simp
  with a k l i t show ?thesis by simp
qed

section \<open>One turn of the meeting\<close>

lemma meeting_turn_Inl:
  "be (turn st + 1) (objs (m_agency st) ! a) YOUR_TURN_PHRASE = Inl e \<Longrightarrow>
   meeting_turn be ps th h a st =
     (False,
      st\<lparr>discussion_log := discussion_log st @
           [\<lparr>agent_name = name (objs (m_agency st) ! a),
             log_agent_id = logging_agent_id th h (objs (m_agency st) ! a),
             message = ''Error during response: '' @ e\<rparr>],
         agents_done := List.insert (agent_id (objs (m_agency st) ! a)) (agents_done st),
         turn := turn st + 1\<rparr>)"
  by (simp add: meeting_turn_def Agent_run_def Let_def)

lemma meeting_turn_Inr:
  "be (turn st + 1) (objs (m_agency st) ! a) YOUR_TURN_PHRASE = Inr r \<Longrightarrow>
   meeting_turn be ps th h a st =
     (length (if is_ready (strip (data r))
              then List.insert (agent_id (objs (m_agency st) ! a)) (agents_done st)
              else agents_done st) = length ps,
      \<lparr>m_agency =
         broadcast ps (agent_id (objs (m_agency st) ! a))
           (ModelRequest [UserPromptPart
              (''From '' @ name (objs (m_agency st) ! a) @ '' (''
               @ logging_agent_id th h (objs (m_agency st) ! a) @ ''): '' @ strip (data r))])
           (upd_obj a (append_message (new_messages r)) (m_agency st)),
       discussion_log = discussion_log st @
           [\<lparr>agent_name = name (objs (m_agency st) ! a),
             log_agent_id = logging_agent_id th h (objs (m_agency st) ! a),
             message = strip (data r)\<rparr>],
       agents_done = (if is_ready (strip (data r))
              then List.insert (agent_id (objs (m_agency st) ! a)) (agents_done st)
              else agents_done st),
       turn = turn st + 1\<rparr>)"
  by (simp add: meeting_turn_def Agent_run_def Let_def)

lemma meeting_turn_counts:
  "turn (snd (meeting_turn be ps th h a st)) = Suc (turn st)
   \<and> length (discussion_log (snd (meeting_turn be ps th h a st))) = Suc (length (discussion_log st))"
  by (cases "be (turn st + 1) (objs (m_agency st) ! a) YOUR_TURN_PHRASE")
     (simp_all add: meeting_turn_Inl meeting_turn_Inr)

lemma meeting_round_counts:
  "turn st \<le> turn (meeting_round be ps th h as st)
   \<and> turn (meeting_round be ps th h as st) \<le> turn st + length as
   \<and> length (discussion_log (meeting_round be ps th h as st)) + turn st =
       length (discussion_log st) + turn (meeting_round be ps th h as st)"
proof (induction as arbitrary: st)
  case Nil
  show ?case by simp
next
  case (Cons a as)
  obtain b st' where t: "meeting_turn be ps th h a st = (b, st')"
    by (cases "meeting_turn be ps th h a st")
  have c: "turn st' = Suc (turn st)" "length (discussion_log st') = Suc (length (discussion_log st))"
    using meeting_turn_counts [of be ps th h a st] by (simp_all add: t)
  show ?case
  proof (cases b)
    case True
    then show ?thesis using c by (simp add: t)
  next
    case False
    then show ?thesis using c Cons.IH [of st'] by (simp add: t)
  qed
qed

lemma meeting_rounds_counts:
  "length (discussion_log (meeting_rounds k be ps th h mr st)) + turn st =
     length (discussion_log st) + turn (meeting_rounds k be ps th h mr st)
   \<and> turn st \<le> turn (meeting_rounds k be ps th h mr st)"
proof (induction k arbitrary: st)
  case 0
  show ?case by simp
next
  case (Suc k)
  let ?st' = "meeting_round be ps th h ps st"
  show ?case
    using meeting_round_counts [of st be ps th h ps] Suc.IH [of ?st']
    by (simp add: Let_def)
qed

lemma meeting_rounds_bound:
  "int (turn st) < mr \<Longrightarrow>
   int (turn (meeting_rounds k be ps th h mr st)) < mr + int (length ps)"
proof (induction k arbitrary: st)
  case 0
  then show ?case by simp
next
  case (Suc k)
  let ?st' = "meeting_round be ps th h ps st"
  have r: "turn ?st' \<le> turn st + length ps"
    using meeting_round_counts [of st be ps th h ps] by simp
  show ?case
  proof (cases "int (turn ?st') \<ge> mr")
    case True
    then show ?thesis using r Suc.prems by (simp add: Let_def)
  next
    case False
    then have "int (turn ?st') < mr" by simp
    from Suc.IH [OF this] False Suc.prems show ?thesis by (simp add: Let_def)
  qed
qed

lemma meeting_run_bound:
  "int (turn (meeting_run be host_id ms)) < max 0 (ms_max_rounds ms) + int (Suc (length (ms_children ms)))
   \<and> length (discussion_log (meeting_run be host_id ms)) =
       length (ms_log ms) + turn (meeting_run be host_id ms)"
proof -
  let ?st0 = "\<lparr>m_agency = ms_agency ms, discussion_log = ms_log ms, agents_done = [], turn = 0\<rparr>"
  have l: "length (discussion_log (meeting_run be host_id ms)) =
       length (ms_log ms) + turn (meeting_run be host_id ms)"
    using meeting_rounds_counts [of "nat (ms_max_rounds ms)" be "ms_temp_host ms # ms_children ms"
        "host_id @ ''_temp''" host_id "ms_max_rounds ms" ?st0]
    by (simp add: meeting_run_def)
  have b: "int (turn (meeting_run be host_id ms)) <
      max 0 (ms_max_rounds ms) + int (Suc (length (ms_children ms)))"
  proof (cases "0 < ms_max_rounds ms")
    case True
    then have "int (turn ?st0) < ms_max_rounds ms" by simp
    from meeting_rounds_bound [OF this, of "nat (ms_max_rounds ms)" be
        "ms_temp_host ms # ms_children ms" "host_id @ ''_temp''" host_id] True
    show ?thesis
      by (simp add: meeting_run_def)
  next
    case False
    then show ?thesis by (simp add: meeting_run_def)
  qed
  show ?thesis using l b by simp
qed

lemma nth_beyond: "length xs = length ys \<Longrightarrow> length xs \<le> n \<Longrightarrow> xs ! n = ys ! n"
proof (induction xs ys arbitrary: n rule: list_induct2)
  case Nil
  show ?case by simp
next
  case (Cons x xs y ys)
  then obtain m where "n = Suc m" by (cases n) auto
  with Cons show ?case by simp
qed

lemma eq_upto_nth_all:
  assumes "eq_upto fg agency agency'"
  shows "fg (objs agency' ! x) = fg (objs agency ! x)"
proof (cases "x < length (objs agency)")
  case True
  then show ?thesis by (rule eq_upto_nth [OF assms])
next
  case False
  then have "objs agency' ! x = objs agency ! x"
    using eq_upto_length [OF assms] by (intro nth_beyond) simp_all
  then show ?thesis by simp
qed

lemma logging_agent_id_not_temp: "logging_agent_id (h @ ''_temp'') h x \<noteq> h @ ''_temp''"
  by (simp add: logging_agent_id_def)

text \<open>
  \<open>spoken_by agency ps th h e\<close>: the log entry \<open>e\<close> carries the name of a participant and
  the id under which that participant is logged.
\<close>

definition spoken_by :: "Agency \<Rightarrow> addr list \<Rightarrow> string \<Rightarrow> string \<Rightarrow> LogEntry \<Rightarrow> bool" where
  "spoken_by agency ps th h e \<longleftrightarrow>
     (\<exists>a\<in>set ps. agent_name e = name (objs agency ! a)
        \<and> log_agent_id e = logging_agent_id th h (objs agency ! a))"

lemma meeting_turn_entry:
  "\<exists>e. discussion_log (snd (meeting_turn be ps th h a st)) = discussion_log st @ [e]
      \<and> agent_name e = name (objs (m_agency st) ! a)
      \<and> log_agent_id e = logging_agent_id th h (objs (m_agency st) ! a)"
  by (cases "be (turn st + 1) (objs (m_agency st) ! a) YOUR_TURN_PHRASE")
     (simp_all add: meeting_turn_Inl meeting_turn_Inr)

lemma logging_agent_id_cong:
  "forget_history x = forget_history y \<Longrightarrow> logging_agent_id th h x = logging_agent_id th h y"
  by (drule forget_history_fields) (simp add: logging_agent_id_def)

lemma meeting_round_entries:
  assumes "eq_upto forget_history ag0 (m_agency st)" and "set as \<subseteq> set ps'"
  shows "\<exists>es. discussion_log (meeting_round be ps th h as st) = discussion_log st @ es
           \<and> (\<forall>e\<in>set es. spoken_by ag0 ps' th h e)"
  using assms
proof (induction as arbitrary: st)
  case Nil
  show ?case by simp
next
  case (Cons a as)
  obtain b st' where t: "meeting_turn be ps th h a st = (b, st')"
    by (cases "meeting_turn be ps th h a st")
  from meeting_turn_entry [of be ps th h a st] obtain e where e:
    "discussion_log st' = discussion_log st @ [e]"
    "agent_name e = name (objs (m_agency st) ! a)"
    "log_agent_id e = logging_agent_id th h (objs (m_agency st) ! a)"
    by (auto simp: t)
  have f: "forget_history (objs (m_agency st) ! a) = forget_history (objs ag0 ! a)"
    by (rule eq_upto_nth_all [OF Cons.prems(1)])
  have a: "a \<in> set ps'" using Cons.prems(2) by simp
  have se: "spoken_by ag0 ps' th h e"
    unfolding spoken_by_def
    using a e(2,3) forget_history_fields [OF f] logging_agent_id_cong [OF f] by auto
  have e': "eq_upto forget_history ag0 (m_agency st')"
    using eq_upto_trans [OF Cons.prems(1) meeting_turn_eq_upto [of st be ps th h a]]
    by (simp add: t)
  show ?case
  proof (cases b)
    case True
    then show ?thesis using e(1) se by (simp add: t)
  next
    case False
    from Cons.IH [OF e'] Cons.prems(2) obtain es where
      "discussion_log (meeting_round be ps th h as st') = discussion_log st' @ es"
      "\<forall>e\<in>set es. spoken_by ag0 ps' th h e"
      by auto
    then show ?thesis using False e(1) se by (simp add: t)
  qed
qed

lemma meeting_rounds_entries:
  assumes "eq_upto forget_history ag0 (m_agency st)"
  shows "\<exists>es. discussion_log (meeting_rounds k be ps th h mr st) = discussion_log st @ es
           \<and> (\<forall>e\<in>set es. spoken_by ag0 ps th h e)"
  using assms
proof (induction k arbitrary: st)
  case 0
  show ?case by simp
next
  case (Suc k)
  let ?st' = "meeting_round be ps th h ps st"
  from meeting_round_entries [OF Suc.prems subset_refl, of be ps th h] obtain es1 where es1:
    "discussion_log ?st' = discussion_log st @ es1" "\<forall>e\<in>set es1. spoken_by ag0 ps th h e"
    by auto
  have e': "eq_upto forget_history ag0 (m_agency ?st')"
    by (rule eq_upto_trans [OF Suc.prems meeting_round_eq_upto])
  from Suc.IH [OF e'] obtain es2 where es2:
    "discussion_log (meeting_rounds k be ps th h mr ?st') = discussion_log ?st' @ es2"
    "\<forall>e\<in>set es2. spoken_by ag0 ps th h e"
    by auto
  show ?case
  proof (cases "length (agents_done st) = length ps")
    case True
    then show ?thesis by simp
  next
    case False
    show ?thesis
    proof (cases "int (turn ?st') \<ge> mr")
      case True
      then show ?thesis using False es1 by (simp add: Let_def)
    next
      case r: False
      have "discussion_log (meeting_rounds (Suc k) be ps th h mr st) = discussion_log st @ (es1 @ es2)"
        using False r es1(1) es2(1) by (simp add: Let_def)
      moreover have "\<forall>e\<in>set (es1 @ es2). spoken_by ag0 ps th h e"
        using es1(2) es2(2) by auto
      ultimately show ?thesis by blast
    qed
  qed
qed

section \<open>A turn in which the backend raises\<close>

lemma meeting_setup_log:
  "ms_log (meeting_setup agency host_id h ctx_prompt objective max_turns) =
     [\<lparr>agent_name = name (objs agency ! h) @ '' [Active Host]'',
       log_agent_id = host_id @ ''_temp'',
       message = ''Meeting initialized with objective: '' @ objective\<rparr>]"
proof -
  let ?ag1 = "with_temp_host agency host_id h ctx_prompt"
  let ?s = "strip_tools (map snd (children (objs agency ! h))) ([], ?ag1)"
  have "forget_tools (objs (snd ?s) ! length (objs agency)) =
        forget_tools (objs ?ag1 ! length (objs agency))"
    by (rule eq_upto_nth_all [OF strip_tools_eq_upto])
  from forget_tools_fields [OF this] show ?thesis
    by (simp add: meeting_setup_unfold Let_def with_temp_host_def temp_host_of_def Agent_init_def)
qed

lemma meeting_rounds_le:
  "turn (meeting_rounds k be ps th h mr st) \<le> turn st + k * length ps"
proof (induction k arbitrary: st)
  case 0
  show ?case by simp
next
  case (Suc k)
  let ?st' = "meeting_round be ps th h ps st"
  have r: "turn ?st' \<le> turn st + length ps"
    using meeting_round_counts [of st be ps th h ps] by simp
  show ?case
    using r Suc.IH [of ?st'] by (simp add: Let_def)
qed

lemma meeting_run_le:
  "turn (meeting_run be host_id ms) \<le> nat (ms_max_rounds ms) * Suc (length (ms_children ms))"
  using meeting_rounds_le [of "nat (ms_max_rounds ms)" be "ms_temp_host ms # ms_children ms"
      "host_id @ ''_temp''" host_id "ms_max_rounds ms"
      "\<lparr>m_agency = ms_agency ms, discussion_log = ms_log ms, agents_done = [], turn = 0\<rparr>"]
  by (simp add: meeting_run_def)

text \<open>
  C7. When the backend raises in a participant's turn, the turn adds exactly one entry to
  the log, whose message is \<^verbatim>\<open>Error during response: \<close> followed by the exception's text, the
  participant's id is added to \<^verbatim>\<open>agents_done\<close>, the agency is unchanged and the inner loop goes
  on (no \<^verbatim>\<open>break\<close>). Whatever the backend does, and so also when a participant fails at every
  call, the loop of the meeting ends: it runs at most \<^verbatim>\<open>max_rounds\<close> rounds of one turn for each
  participant, and fewer than \<^verbatim>\<open>max_rounds\<close> plus the number of participants turns.
\<close>

theorem meeting_turn_failure_isolated:
  assumes "be (turn st + 1) (objs (m_agency st) ! a) YOUR_TURN_PHRASE = Inl e"
  shows "(let (brk, st') = meeting_turn be ps th h a st
          in \<not> brk
           \<and> discussion_log st' = discussion_log st @
               [\<lparr>agent_name = name (objs (m_agency st) ! a),
                 log_agent_id = logging_agent_id th h (objs (m_agency st) ! a),
                 message = ''Error during response: '' @ e\<rparr>]
           \<and> agents_done st' = List.insert (agent_id (objs (m_agency st) ! a)) (agents_done st)
           \<and> agent_id (objs (m_agency st) ! a) \<in> set (agents_done st')
           \<and> turn st' = turn st + 1
           \<and> m_agency st' = m_agency st)
       \<and> turn (meeting_run be host_id ms) \<le> nat (ms_max_rounds ms) * Suc (length (ms_children ms))
       \<and> int (turn (meeting_run be host_id ms)) <
           max 0 (ms_max_rounds ms) + int (Suc (length (ms_children ms)))
       \<and> length (discussion_log (meeting_run be host_id ms)) =
           length (ms_log ms) + turn (meeting_run be host_id ms)"
  using meeting_run_bound [of be host_id ms] meeting_run_le [of be host_id ms]
  using assms by (simp add: meeting_turn_Inl)

theorem meeting_turn_failure_isolated_witness:
  "(let ms = meeting_setup family ''0'' 0 None ''plan'' 2;
        st = \<lparr>m_agency = ms_agency ms, discussion_log = ms_log ms, agents_done = [], turn = 0\<rparr>;
        (brk, st') = meeting_turn failing_backend [3, 1, 2] ''0_temp'' ''0'' 3 st
    in failing_backend (turn st + 1) (objs (m_agency st) ! 3) YOUR_TURN_PHRASE = Inl ''backend down''
     \<and> \<not> brk
     \<and> map message (discussion_log st') =
         [''Meeting initialized with objective: plan'', ''Error during response: backend down'']
     \<and> map log_agent_id (discussion_log st') = [''0_temp'', ''0'']
     \<and> agents_done st' = [''0_temp'']
     \<and> turn st' = 1
     \<and> turn (meeting_run failing_backend ''0'' ms) \<le> 18)"
proof -
  let ?ms = "meeting_setup family ''0'' 0 None ''plan'' 2"
  let ?st = "\<lparr>m_agency = ms_agency ?ms, discussion_log = ms_log ?ms, agents_done = [], turn = 0\<rparr>"
  have f: "failing_backend (turn ?st + 1) (objs (m_agency ?st) ! 3) YOUR_TURN_PHRASE = Inl ''backend down''"
    by (simp add: failing_backend_def)
  have i: "agent_id (objs (ms_agency ?ms) ! 3) = ''0_temp''"
    using meeting_setup_ids [of 3 family "''0''" 0 None "''plan''" 2] by (simp add: family_sel)
  have l: "map message (ms_log ?ms) = [''Meeting initialized with objective: plan'']"
    "map log_agent_id (ms_log ?ms) = [''0_temp'']"
    by (simp_all add: meeting_setup_log family_def)
  have r: "ms_max_rounds ?ms = 6" "length (ms_children ?ms) = 2"
    by (simp_all add: family_sel)
  from meeting_turn_failure_isolated [of failing_backend ?st 3 "''backend down''" "[3, 1, 2]"
      "''0_temp''" "''0''" "''0''" ?ms, OF f]
  show ?thesis
    using i l r by (simp add: Let_def logging_agent_id_def failing_backend_def split: prod.splits)
qed

section \<open>The ids under which the turns are recorded\<close>

text \<open>
  \<open>heard agency ps th h m\<close>: the message \<open>m\<close> is what line 475 builds for a participant, its
  name followed by the id under which it is logged. \<open>produced be m\<close>: \<open>m\<close> is one of the new
  messages of a run of the backend.
\<close>

definition heard :: "Agency \<Rightarrow> addr list \<Rightarrow> string \<Rightarrow> string \<Rightarrow> ModelMessage \<Rightarrow> bool" where
  "heard agency ps th h m \<longleftrightarrow>
     (\<exists>a\<in>set ps. \<exists>r. m = ModelRequest [UserPromptPart
        (''From '' @ name (objs agency ! a) @ '' (''
         @ logging_agent_id th h (objs agency ! a) @ ''): '' @ r)])"

definition produced :: "backend \<Rightarrow> ModelMessage \<Rightarrow> bool" where
  "produced be m \<longleftrightarrow> (\<exists>t x p r. be t x p = Inr r \<and> m \<in> set (new_messages r))"

text \<open>\<open>grows P agency agency'\<close>: every history has grown, by messages that satisfy \<open>P\<close>.\<close>

definition grows :: "(ModelMessage \<Rightarrow> bool) \<Rightarrow> Agency \<Rightarrow> Agency \<Rightarrow> bool" where
  "grows P agency agency' \<longleftrightarrow>
     (\<forall>x. \<exists>ms. message_history (objs agency' ! x) = message_history (objs agency ! x) @ ms
              \<and> (\<forall>m\<in>set ms. P m))"

lemma grows_refl: "grows P agency agency"
  by (simp add: grows_def)

lemma grows_trans:
  assumes "grows P a b" and "grows P b c"
  shows "grows P a c"
  unfolding grows_def
proof
  fix x
  from assms(1) obtain ms1 where 1:
    "message_history (objs b ! x) = message_history (objs a ! x) @ ms1" "\<forall>m\<in>set ms1. P m"
    unfolding grows_def by blast
  from assms(2) obtain ms2 where 2:
    "message_history (objs c ! x) = message_history (objs b ! x) @ ms2" "\<forall>m\<in>set ms2. P m"
    unfolding grows_def by blast
  have "message_history (objs c ! x) = message_history (objs a ! x) @ (ms1 @ ms2)"
    by (simp add: 1 2)
  moreover have "\<forall>m\<in>set (ms1 @ ms2). P m" using 1(2) 2(2) by auto
  ultimately show "\<exists>ms. message_history (objs c ! x) = message_history (objs a ! x) @ ms
      \<and> (\<forall>m\<in>set ms. P m)"
    by blast
qed

lemma grows_upd_obj:
  "\<forall>m\<in>set ms. P m \<Longrightarrow> grows P agency (upd_obj a (append_message ms) agency)"
  by (simp add: grows_def objs_upd_obj append_message_def)

lemma grows_broadcast: "P m \<Longrightarrow> grows P agency (broadcast ps speaker m agency)"
proof (induction ps arbitrary: agency)
  case Nil
  show ?case by (simp add: grows_refl)
next
  case (Cons other rest)
  let ?ag1 = "if agent_id (objs agency ! other) \<noteq> speaker
              then upd_obj other (append_message [m]) agency else agency"
  have "grows P agency ?ag1"
    using Cons.prems by (simp add: grows_refl grows_upd_obj)
  from grows_trans [OF this Cons.IH [OF Cons.prems, of ?ag1]]
  show ?case by simp
qed

lemma meeting_turn_grows:
  assumes e: "eq_upto forget_history ag0 (m_agency st)" and a: "a \<in> set ps'"
  shows "grows (\<lambda>m. heard ag0 ps' th h m \<or> produced be m) (m_agency st)
           (m_agency (snd (meeting_turn be ps th h a st)))"
proof (cases "be (turn st + 1) (objs (m_agency st) ! a) YOUR_TURN_PHRASE")
  case (Inl e)
  then show ?thesis by (simp add: meeting_turn_Inl grows_refl)
next
  case (Inr r)
  let ?P = "\<lambda>m. heard ag0 ps' th h m \<or> produced be m"
  let ?x = "objs (m_agency st) ! a"
  let ?ag1 = "upd_obj a (append_message (new_messages r)) (m_agency st)"
  let ?m = "ModelRequest [UserPromptPart
              (''From '' @ name ?x @ '' ('' @ logging_agent_id th h ?x @ ''): '' @ strip (data r))]"
  have f: "forget_history ?x = forget_history (objs ag0 ! a)"
    by (rule eq_upto_nth_all [OF e])
  have "\<forall>m\<in>set (new_messages r). ?P m"
    unfolding produced_def using Inr by blast
  then have g1: "grows ?P (m_agency st) ?ag1" by (rule grows_upd_obj)
  have n: "name ?x = name (objs ag0 ! a)"
    using forget_history_fields [OF f] by simp
  have "heard ag0 ps' th h ?m"
    unfolding heard_def n logging_agent_id_cong [OF f] by (rule bexI [OF _ a]) (rule exI, rule refl)
  then have "?P ?m" by simp
  then have g2: "grows ?P ?ag1 (broadcast ps (agent_id ?x) ?m ?ag1)" by (rule grows_broadcast)
  show ?thesis
    using grows_trans [OF g1 g2] by (simp add: meeting_turn_Inr [of be st a r, OF Inr])
qed


lemma meeting_round_grows:
  assumes "eq_upto forget_history ag0 (m_agency st)" and "set as \<subseteq> set ps'"
  shows "grows (\<lambda>m. heard ag0 ps' th h m \<or> produced be m) (m_agency st)
           (m_agency (meeting_round be ps th h as st))"
  using assms
proof (induction as arbitrary: st)
  case Nil
  show ?case by (simp add: grows_refl)
next
  case (Cons a as)
  obtain b st' where t: "meeting_turn be ps th h a st = (b, st')"
    by (cases "meeting_turn be ps th h a st")
  have a: "a \<in> set ps'" using Cons.prems(2) by simp
  have g: "grows (\<lambda>m. heard ag0 ps' th h m \<or> produced be m) (m_agency st) (m_agency st')"
    using meeting_turn_grows [OF Cons.prems(1) a, of th h be ps] by (simp add: t)
  have e': "eq_upto forget_history ag0 (m_agency st')"
    using eq_upto_trans [OF Cons.prems(1) meeting_turn_eq_upto [of st be ps th h a]]
    by (simp add: t)
  have s: "set as \<subseteq> set ps'" using Cons.prems(2) by simp
  show ?case
    using g grows_trans [OF g Cons.IH [OF e' s]] by (cases b) (simp_all add: t)
qed

lemma meeting_rounds_grows:
  assumes "eq_upto forget_history ag0 (m_agency st)"
  shows "grows (\<lambda>m. heard ag0 ps th h m \<or> produced be m) (m_agency st)
           (m_agency (meeting_rounds k be ps th h mr st))"
  using assms
proof (induction k arbitrary: st)
  case 0
  show ?case by (simp add: grows_refl)
next
  case (Suc k)
  let ?st' = "meeting_round be ps th h ps st"
  have g: "grows (\<lambda>m. heard ag0 ps th h m \<or> produced be m) (m_agency st) (m_agency ?st')"
    by (rule meeting_round_grows [OF Suc.prems subset_refl])
  have e': "eq_upto forget_history ag0 (m_agency ?st')"
    by (rule eq_upto_trans [OF Suc.prems meeting_round_eq_upto])
  show ?case
    using g grows_trans [OF g Suc.IH [OF e']] by (simp add: Let_def grows_refl)
qed

text \<open>With a positive number of rounds the meeting has a first turn.\<close>

lemma meeting_run_starts:
  assumes "0 < ms_max_rounds ms"
  shows "0 < turn (meeting_run be host_id ms)"
proof -
  let ?ps = "ms_temp_host ms # ms_children ms"
  let ?th = "host_id @ ''_temp''"
  let ?st0 = "\<lparr>m_agency = ms_agency ms, discussion_log = ms_log ms, agents_done = [], turn = 0\<rparr>"
  obtain k where k: "nat (ms_max_rounds ms) = Suc k"
    using assms by (cases "nat (ms_max_rounds ms)") simp_all
  obtain b st1 where t: "meeting_turn be ?ps ?th host_id (ms_temp_host ms) ?st0 = (b, st1)"
    by (cases "meeting_turn be ?ps ?th host_id (ms_temp_host ms) ?st0")
  have t1: "turn st1 = Suc 0"
    using meeting_turn_counts [of be ?ps ?th host_id "ms_temp_host ms" ?st0] by (simp add: t)
  let ?r = "meeting_round be ?ps ?th host_id ?ps ?st0"
  have r: "0 < turn ?r"
    using t1 meeting_round_counts [of st1 be ?ps ?th host_id "ms_children ms"]
    by (cases b) (simp_all add: t)
  have "turn ?r \<le> turn (meeting_rounds k be ?ps ?th host_id (ms_max_rounds ms) ?r)"
    using meeting_rounds_counts [of k be ?ps ?th host_id "ms_max_rounds ms" ?r] by simp
  with r show ?thesis
    by (simp add: meeting_run_def k Let_def del: meeting_round.simps)
qed

text \<open>
  C10. In the log of a meeting, after the entry that announces the meeting, there is one
  entry for each turn (whether the run returned or raised); each carries the name of a
  participant and the id under which that participant is logged, which is never the
  synthetic id. Every message that the meeting appends to a history is a new message of a
  run of the backend or the broadcast of line 475 for a participant, built with the same id.
  For the temporary host that id is the host's id, for a child (a valid reference) it is the
  id that the child has in the agency (unless that id is the synthetic id itself, and then it
  is the host's id). The entry that announces the meeting, which is no turn, carries the
  synthetic id.
\<close>

theorem meeting_speaker_ids:
  assumes valid: "\<forall>c\<in>set (map snd (children (objs agency ! h))). c < length (objs agency)"
  shows "(let th = host_id @ ''_temp'';
              ms = meeting_setup agency host_id h ctx_prompt objective max_turns;
              ps = ms_temp_host ms # ms_children ms;
              fin = meeting_run be host_id ms
          in (\<exists>es. discussion_log fin = ms_log ms @ es \<and> length es = turn fin
                \<and> (\<forall>e\<in>set es. log_agent_id e \<noteq> th \<and> spoken_by (ms_agency ms) ps th host_id e))
           \<and> grows (\<lambda>m. heard (ms_agency ms) ps th host_id m \<or> produced be m)
                (ms_agency ms) (m_agency fin)
           \<and> (\<forall>a\<in>set ps.
                logging_agent_id th host_id (objs (ms_agency ms) ! a) =
                  (if a = ms_temp_host ms \<or> agent_id (objs agency ! a) = th then host_id
                   else agent_id (objs agency ! a))
                \<and> logging_agent_id th host_id (objs (ms_agency ms) ! a) \<noteq> th)
           \<and> map log_agent_id (ms_log ms) = [th])"
proof -
  define th where "th = host_id @ ''_temp''"
  define ms where "ms = meeting_setup agency host_id h ctx_prompt objective max_turns"
  define ps where "ps = ms_temp_host ms # ms_children ms"
  define st0 where
    "st0 = \<lparr>m_agency = ms_agency ms, discussion_log = ms_log ms, agents_done = [], turn = 0\<rparr>"
  define fin where "fin = meeting_run be host_id ms"
  have fin: "fin = meeting_rounds (nat (ms_max_rounds ms)) be ps th host_id (ms_max_rounds ms) st0"
    by (simp add: fin_def meeting_run_def ps_def th_def st0_def)
  have e0: "eq_upto forget_history (ms_agency ms) (m_agency st0)"
    by (simp add: st0_def)
  from meeting_rounds_entries [OF e0, of "nat (ms_max_rounds ms)" be ps th host_id "ms_max_rounds ms"]
  obtain es where es: "discussion_log fin = discussion_log st0 @ es"
    "\<forall>e\<in>set es. spoken_by (ms_agency ms) ps th host_id e"
    unfolding fin by blast
  have len: "length es = turn fin"
    using meeting_rounds_counts [of "nat (ms_max_rounds ms)" be ps th host_id "ms_max_rounds ms" st0]
      es(1) by (simp add: fin st0_def)
  have nt: "log_agent_id e \<noteq> th" if "e \<in> set es" for e
  proof -
    from es(2) that have "spoken_by (ms_agency ms) ps th host_id e" by (rule bspec)
    then obtain a where "log_agent_id e = logging_agent_id th host_id (objs (ms_agency ms) ! a)"
      unfolding spoken_by_def by blast
    then show ?thesis
      unfolding th_def by (simp add: logging_agent_id_not_temp)
  qed
  have p1: "\<exists>es. discussion_log fin = ms_log ms @ es \<and> length es = turn fin
                \<and> (\<forall>e\<in>set es. log_agent_id e \<noteq> th \<and> spoken_by (ms_agency ms) ps th host_id e)"
  proof (intro exI conjI ballI)
    show "discussion_log fin = ms_log ms @ es" using es(1) by (simp add: st0_def)
    show "length es = turn fin" by (rule len)
    show "log_agent_id e \<noteq> th" if "e \<in> set es" for e using that by (rule nt)
    show "spoken_by (ms_agency ms) ps th host_id e" if "e \<in> set es" for e
      using es(2) that by (rule bspec)
  qed
  have p2: "grows (\<lambda>m. heard (ms_agency ms) ps th host_id m \<or> produced be m)
                (ms_agency ms) (m_agency fin)"
    using meeting_rounds_grows [OF e0, of ps th host_id be "nat (ms_max_rounds ms)" "ms_max_rounds ms"]
    by (simp add: fin st0_def)
  have p3: "logging_agent_id th host_id (objs (ms_agency ms) ! a) =
                  (if a = ms_temp_host ms \<or> agent_id (objs agency ! a) = th then host_id
                   else agent_id (objs agency ! a))
                \<and> logging_agent_id th host_id (objs (ms_agency ms) ! a) \<noteq> th"
    if a: "a \<in> set ps" for a
  proof -
    have "a \<le> length (objs agency)"
    proof (cases "a = ms_temp_host ms")
      case True
      then show ?thesis by (simp add: ms_def)
    next
      case False
      with a have "a \<in> set (map snd (children (objs agency ! h)))"
        by (simp add: ps_def ms_def)
      with valid have "a < length (objs agency)" by (rule bspec)
      then show ?thesis by simp
    qed
    from meeting_setup_ids [OF this, of host_id h ctx_prompt objective max_turns]
    have "agent_id (objs (ms_agency ms) ! a) =
            (if a = length (objs agency) then th else agent_id (objs agency ! a))"
      by (simp add: ms_def th_def)
    then show ?thesis
      unfolding th_def by (simp add: logging_agent_id_def ms_def)
  qed
  have p4: "map log_agent_id (ms_log ms) = [th]"
    by (simp add: ms_def th_def meeting_setup_log)
  have "(\<exists>es. discussion_log fin = ms_log ms @ es \<and> length es = turn fin
                \<and> (\<forall>e\<in>set es. log_agent_id e \<noteq> th \<and> spoken_by (ms_agency ms) ps th host_id e))
           \<and> grows (\<lambda>m. heard (ms_agency ms) ps th host_id m \<or> produced be m)
                (ms_agency ms) (m_agency fin)
           \<and> (\<forall>a\<in>set ps.
                logging_agent_id th host_id (objs (ms_agency ms) ! a) =
                  (if a = ms_temp_host ms \<or> agent_id (objs agency ! a) = th then host_id
                   else agent_id (objs agency ! a))
                \<and> logging_agent_id th host_id (objs (ms_agency ms) ! a) \<noteq> th)
           \<and> map log_agent_id (ms_log ms) = [th]"
    using p1 p2 p4 by (intro conjI ballI p3)
  then show ?thesis
    unfolding Let_def th_def ms_def ps_def fin_def .
qed


theorem meeting_speaker_ids_witness:
  "(let ms = meeting_setup family ''0'' 0 None ''plan'' 2;
        fin = meeting_run failing_backend ''0'' ms
    in map snd (children (objs family ! 0)) = [1, 2]
     \<and> length (objs family) = 3
     \<and> 0 < turn fin
     \<and> (\<exists>es. discussion_log fin = ms_log ms @ es \<and> length es = turn fin
           \<and> set (map log_agent_id es) \<subseteq> {''0'', ''1'', ''2''})
     \<and> map (\<lambda>a. logging_agent_id ''0_temp'' ''0'' (objs (ms_agency ms) ! a)) [3, 1, 2] =
         [''0'', ''1'', ''2'']
     \<and> map log_agent_id (ms_log ms) = [''0_temp''])"
proof -
  define ms where "ms = meeting_setup family ''0'' 0 None ''plan'' 2"
  define fin where "fin = meeting_run failing_backend ''0'' ms"
  have k: "map snd (children (objs family ! 0)) = [1, 2]" by (simp add: family_sel)
  have l: "length (objs family) = 3" by (simp add: family_sel)
  have v: "\<forall>c\<in>set (map snd (children (objs family ! 0))). c < length (objs family)"
    unfolding k l by simp
  have i: "agent_id (objs family ! 1) = ''1''" "agent_id (objs family ! 2) = ''2''"
    by (simp_all add: family_def Agent_init_def)
  have ps: "ms_temp_host ms # ms_children ms = [3, 1, 2]"
    by (simp add: ms_def family_sel)
  have t: "0 < turn fin"
    unfolding fin_def by (rule meeting_run_starts) (simp add: ms_def family_sel)
  note th = meeting_speaker_ids [OF v, of "''0''" None "''plan''" 2 failing_backend,
      unfolded Let_def, folded ms_def, folded fin_def, unfolded ps]
  have lid: "logging_agent_id ''0_temp'' ''0'' (objs (ms_agency ms) ! 3) = ''0''"
    "logging_agent_id ''0_temp'' ''0'' (objs (ms_agency ms) ! 1) = ''1''"
    "logging_agent_id ''0_temp'' ''0'' (objs (ms_agency ms) ! 2) = ''2''"
    using th [THEN conjunct2, THEN conjunct2, THEN conjunct1] i
    by (simp_all add: ms_def family_sel)
  have l0: "map log_agent_id (ms_log ms) = [''0_temp'']"
    using th [THEN conjunct2, THEN conjunct2, THEN conjunct2] by simp
  from th [THEN conjunct1] obtain es where es:
    "discussion_log fin = ms_log ms @ es" "length es = turn fin"
    "\<forall>e\<in>set es. log_agent_id e \<noteq> ''0'' @ ''_temp''
        \<and> spoken_by (ms_agency ms) [3, 1, 2] (''0'' @ ''_temp'') ''0'' e"
    by (elim exE conjE)
  have known: "log_agent_id e \<in> {''0'', ''1'', ''2''}" if "e \<in> set es" for e
  proof -
    from es(3) that have "log_agent_id e \<noteq> ''0'' @ ''_temp''
        \<and> spoken_by (ms_agency ms) [3, 1, 2] (''0'' @ ''_temp'') ''0'' e"
      by (rule bspec)
    then have "spoken_by (ms_agency ms) [3, 1, 2] (''0'' @ ''_temp'') ''0'' e"
      by (rule conjunct2)
    then show ?thesis
      unfolding spoken_by_def using lid by (elim bexE conjE) (simp, elim disjE, simp_all)
  qed
  have sub: "set (map log_agent_id es) \<subseteq> {''0'', ''1'', ''2''}"
  proof
    fix t
    assume "t \<in> set (map log_agent_id es)"
    then obtain e where e: "e \<in> set es" "t = log_agent_id e" by (auto simp: image_iff)
    show "t \<in> {''0'', ''1'', ''2''}" unfolding e(2) using e(1) by (rule known)
  qed
  have "\<exists>es. discussion_log fin = ms_log ms @ es \<and> length es = turn fin
           \<and> set (map log_agent_id es) \<subseteq> {''0'', ''1'', ''2''}"
    by (intro exI conjI) (rule es(1), rule es(2), rule sub)
  with k l t lid l0 show ?thesis
    unfolding Let_def ms_def [symmetric] fin_def [symmetric] by simp
qed

section \<open>A meeting of a host with two children\<close>

lemma starts_with_iff: "starts_with p s \<longleftrightarrow> (\<exists>v. s = p @ v)"
  by (induction p s rule: starts_with.induct) auto

lemma contains_iff: "contains m s \<longleftrightarrow> (\<exists>u v. s = u @ m @ v)"
proof (induction s)
  case Nil
  show ?case by simp
next
  case (Cons c cs)
  have "(\<exists>u v. c # cs = u @ m @ v) \<longleftrightarrow> (\<exists>v. c # cs = m @ v) \<or> (\<exists>u v. cs = u @ m @ v)"
  proof
    assume "\<exists>u v. c # cs = u @ m @ v"
    then obtain u v where uv: "c # cs = u @ m @ v" by blast
    show "(\<exists>v. c # cs = m @ v) \<or> (\<exists>u v. cs = u @ m @ v)"
    proof (cases u)
      case Nil
      with uv show ?thesis by auto
    next
      case (Cons x u')
      with uv have "cs = u' @ m @ v" by simp
      then show ?thesis by blast
    qed
  next
    assume "(\<exists>v. c # cs = m @ v) \<or> (\<exists>u v. cs = u @ m @ v)"
    then show "\<exists>u v. c # cs = u @ m @ v"
    proof
      assume "\<exists>v. c # cs = m @ v"
      then obtain v where "c # cs = [] @ m @ v" by auto
      then show ?thesis by blast
    next
      assume "\<exists>u v. cs = u @ m @ v"
      then obtain u v where "c # cs = (c # u) @ m @ v" by auto
      then show ?thesis by blast
    qed
  qed
  then show ?case by (simp add: Cons.IH starts_with_iff)
qed

lemma contains_upper: "contains m s \<Longrightarrow> contains (upper m) (upper s)"
  unfolding contains_iff upper_def by (metis map_append)

lemma dropWhile_keeps:
  "m \<noteq> [] \<Longrightarrow> \<not> P (hd m) \<Longrightarrow> \<exists>u'. dropWhile P (u @ m @ v) = u' @ m @ v"
proof (induction u)
  case Nil
  then have "dropWhile P ([] @ m @ v) = [] @ m @ v" by (cases m) simp_all
  then show ?case by (rule exI)
next
  case (Cons x u)
  show ?case
  proof (cases "P x")
    case True
    then show ?thesis using Cons by simp
  next
    case False
    then have "dropWhile P ((x # u) @ m @ v) = (x # u) @ m @ v" by simp
    then show ?thesis by blast
  qed
qed

lemma contains_strip:
  assumes "contains m s" and "m \<noteq> []" and "\<not> is_space (hd m)" and "\<not> is_space (last m)"
  shows "contains m (strip s)"
proof -
  from assms(1) obtain u v where s: "s = u @ m @ v" unfolding contains_iff by blast
  from dropWhile_keeps [of m is_space u v, OF assms(2,3)] obtain u' where
    1: "dropWhile is_space s = u' @ m @ v" unfolding s by blast
  have "rev m \<noteq> []" "\<not> is_space (hd (rev m))"
    using assms(2,4) by (simp_all add: hd_rev)
  from dropWhile_keeps [of "rev m" is_space "rev v" "rev u'", OF this] obtain v' where
    2: "dropWhile is_space (rev v @ rev m @ rev u') = v' @ rev m @ rev u'" by blast
  have "strip s = u' @ m @ rev v'"
    by (simp add: strip_def 1 2)
  then show ?thesis unfolding contains_iff by blast
qed

text \<open>A response that contains one of the two phrases is recognised after \<^verbatim>\<open>strip\<close> and \<^verbatim>\<open>upper\<close>.\<close>

lemma is_ready_contains:
  assumes "contains ''READY_TO_MOVE_ON'' s \<or> contains ''READY_TO_END_MEETING'' s"
  shows "is_ready (strip s)"
proof -
  have u: "upper ''READY_TO_MOVE_ON'' = ''READY_TO_MOVE_ON''"
    "upper ''READY_TO_END_MEETING'' = ''READY_TO_END_MEETING''"
    by (simp_all add: upper_def upper_char_def)
  from assms show ?thesis
  proof
    assume "contains ''READY_TO_MOVE_ON'' s"
    then have "contains ''READY_TO_MOVE_ON'' (strip s)"
      by (rule contains_strip) (simp_all add: is_space_def)
    from contains_upper [OF this] show ?thesis by (simp add: is_ready_def u)
  next
    assume "contains ''READY_TO_END_MEETING'' s"
    then have "contains ''READY_TO_END_MEETING'' (strip s)"
      by (rule contains_strip) (simp_all add: is_space_def)
    from contains_upper [OF this] show ?thesis by (simp add: is_ready_def u)
  qed
qed

text \<open>A turn in which the run returns, in a state whose agents are those of \<open>ag0\<close>.\<close>

lemma meeting_turn_reply:
  assumes r: "be (turn st + 1) (objs (m_agency st) ! a) YOUR_TURN_PHRASE = Inr r"
    and e: "eq_upto forget_history ag0 (m_agency st)"
  shows "fst (meeting_turn be ps th h a st) =
           (length (agents_done (snd (meeting_turn be ps th h a st))) = length ps)"
    and "turn (snd (meeting_turn be ps th h a st)) = Suc (turn st)"
    and "agents_done (snd (meeting_turn be ps th h a st)) =
           (if is_ready (strip (data r)) then List.insert (agent_id (objs ag0 ! a)) (agents_done st)
            else agents_done st)"
    and "discussion_log (snd (meeting_turn be ps th h a st)) =
           discussion_log st @
             [\<lparr>agent_name = name (objs ag0 ! a),
               log_agent_id = logging_agent_id th h (objs ag0 ! a),
               message = strip (data r)\<rparr>]"
    and "eq_upto forget_history ag0 (m_agency (snd (meeting_turn be ps th h a st)))"
proof -
  have f: "forget_history (objs (m_agency st) ! a) = forget_history (objs ag0 ! a)"
    by (rule eq_upto_nth_all [OF e])
  note i = forget_history_fields [OF f] logging_agent_id_cong [OF f]
  note t = meeting_turn_Inr [of be st a r, OF r]
  show "fst (meeting_turn be ps th h a st) =
           (length (agents_done (snd (meeting_turn be ps th h a st))) = length ps)"
    by (simp add: t)
  show "turn (snd (meeting_turn be ps th h a st)) = Suc (turn st)"
    by (simp add: t)
  show "agents_done (snd (meeting_turn be ps th h a st)) =
           (if is_ready (strip (data r)) then List.insert (agent_id (objs ag0 ! a)) (agents_done st)
            else agents_done st)"
    using i by (simp add: t)
  show "discussion_log (snd (meeting_turn be ps th h a st)) =
           discussion_log st @
             [\<lparr>agent_name = name (objs ag0 ! a),
               log_agent_id = logging_agent_id th h (objs ag0 ! a),
               message = strip (data r)\<rparr>]"
    using i by (simp add: t)
  show "eq_upto forget_history ag0 (m_agency (snd (meeting_turn be ps th h a st)))"
    by (rule eq_upto_trans [OF e meeting_turn_eq_upto])
qed


text \<open>
  C3. The host \<open>host_id\<close> has the two children \<open>a\<close> and \<open>b\<close> (valid references, with
  different ids that are not the synthetic id) and \<^verbatim>\<open>max_turns\<close> is 2. The four runs of the
  backend return: the first (the temporary host) a text without any of the two phrases, the
  second and the third (the children) texts that contain \<^verbatim>\<open>READY_TO_MOVE_ON\<close>, the fourth (the
  temporary host again) a text that contains \<^verbatim>\<open>READY_TO_END_MEETING\<close>. Then \<^verbatim>\<open>max_rounds\<close> is 6;
  the first round makes three turns and leaves two ids in \<^verbatim>\<open>agents_done\<close>; the first turn of the
  second round, the host's, is the \<^verbatim>\<open>break\<close> of line 492 and its state is the final state of the
  loop: four turns, logged under the host's id, the ids of \<open>a\<close> and \<open>b\<close>, and the host's id,
  and three ids in \<^verbatim>\<open>agents_done\<close>.
\<close>

theorem meeting_scenario:
  assumes reg: "map_of (agents agency) host_id = Some h"
    and kids: "children (objs agency ! h) = [(ka, a), (kb, b)]"
    and valid: "a < length (objs agency)" "b < length (objs agency)"
    and ids: "agent_id (objs agency ! a) \<noteq> agent_id (objs agency ! b)"
      "agent_id (objs agency ! a) \<noteq> host_id @ ''_temp''"
      "agent_id (objs agency ! b) \<noteq> host_id @ ''_temp''"
    and t1: "\<forall>x. be 1 x YOUR_TURN_PHRASE = Inr r1" and n1: "\<not> is_ready (strip (data r1))"
    and t2: "\<forall>x. be 2 x YOUR_TURN_PHRASE = Inr r2" and c2: "contains ''READY_TO_MOVE_ON'' (data r2)"
    and t3: "\<forall>x. be 3 x YOUR_TURN_PHRASE = Inr r3" and c3: "contains ''READY_TO_MOVE_ON'' (data r3)"
    and t4: "\<forall>x. be 4 x YOUR_TURN_PHRASE = Inr r4"
    and c4: "contains ''READY_TO_END_MEETING'' (data r4)"
  shows "(let th = host_id @ ''_temp'';
              ms = meeting_setup agency host_id h ctx_prompt objective 2;
              ps = ms_temp_host ms # ms_children ms;
              st0 = \<lparr>m_agency = ms_agency ms, discussion_log = ms_log ms, agents_done = [], turn = 0\<rparr>;
              round1 = meeting_round be ps th host_id ps st0;
              fin = meeting_run be host_id ms
          in ms_max_rounds ms = 6
           \<and> turn round1 = 3
           \<and> agents_done round1 = [agent_id (objs agency ! b), agent_id (objs agency ! a)]
           \<and> meeting_turn be ps th host_id (ms_temp_host ms) round1 = (True, fin)
           \<and> turn fin = 4
           \<and> agents_done fin = [th, agent_id (objs agency ! b), agent_id (objs agency ! a)]
           \<and> map log_agent_id (discussion_log fin) =
               [th, host_id, agent_id (objs agency ! a), agent_id (objs agency ! b), host_id]
           \<and> map message (discussion_log fin) =
               [''Meeting initialized with objective: '' @ objective,
                strip (data r1), strip (data r2), strip (data r3), strip (data r4)]
           \<and> fst (call_meeting be agency host_id ctx_prompt objective 2) =
               Inr (''Meeting complete. Summary:'' @ nl @ nl
                    @ join nl (map summary_line (discussion_log fin))))"
proof -
  define th where "th = host_id @ ''_temp''"
  define ms where "ms = meeting_setup agency host_id h ctx_prompt objective 2"
  define t where "t = length (objs agency)"
  define ag0 where "ag0 = ms_agency ms"
  define st0 where
    "st0 = \<lparr>m_agency = ag0, discussion_log = ms_log ms, agents_done = [], turn = 0\<rparr>"
  define ida where "ida = agent_id (objs agency ! a)"
  define idb where "idb = agent_id (objs agency ! b)"
  let ?ps = "[t, a, b]"
  have sel: "ms_temp_host ms = t" "ms_children ms = [a, b]" "ms_max_rounds ms = 6"
    by (simp_all add: ms_def t_def kids)
  have neq: "a \<noteq> t" "b \<noteq> t" using valid by (simp_all add: t_def)
  have idt: "agent_id (objs ag0 ! t) = th"
    using meeting_setup_ids [of t agency host_id h ctx_prompt objective 2]
    by (simp add: ag0_def ms_def t_def th_def)
  have ida: "agent_id (objs ag0 ! a) = ida"
    using meeting_setup_ids [of a agency host_id h ctx_prompt objective 2] valid(1)
    by (simp add: ag0_def ms_def ida_def)
  have idb: "agent_id (objs ag0 ! b) = idb"
    using meeting_setup_ids [of b agency host_id h ctx_prompt objective 2] valid(2)
    by (simp add: ag0_def ms_def idb_def)
  have d: "ida \<noteq> idb" "ida \<noteq> th" "idb \<noteq> th"
    using ids by (simp_all add: ida_def idb_def th_def)
  have lt: "logging_agent_id th host_id (objs ag0 ! t) = host_id"
    by (simp add: logging_agent_id_def idt)
  have la: "logging_agent_id th host_id (objs ag0 ! a) = ida"
    using d by (simp add: logging_agent_id_def ida)
  have lb: "logging_agent_id th host_id (objs ag0 ! b) = idb"
    using d by (simp add: logging_agent_id_def idb)
  have r2: "is_ready (strip (data r2))" using c2 by (intro is_ready_contains) simp
  have r3: "is_ready (strip (data r3))" using c3 by (intro is_ready_contains) simp
  have r4: "is_ready (strip (data r4))" using c4 by (intro is_ready_contains) simp
  have e0: "eq_upto forget_history ag0 (m_agency st0)" by (simp add: st0_def)
  have l0: "map log_agent_id (discussion_log st0) = [th]"
    "map message (discussion_log st0) = [''Meeting initialized with objective: '' @ objective]"
    by (simp_all add: st0_def ms_def meeting_setup_log th_def)
  \<comment> \<open>the first turn: the temporary host\<close>
  define st1 where "st1 = snd (meeting_turn be ?ps th host_id t st0)"
  have b1: "be (turn st0 + 1) (objs (m_agency st0) ! t) YOUR_TURN_PHRASE = Inr r1"
    using t1 by (simp add: st0_def)
  note s1 = meeting_turn_reply [of be st0 t r1 ag0 ?ps th host_id, OF b1 e0, folded st1_def]
  have u1: "turn st1 = 1" using s1(2) by (simp add: st0_def)
  have d1: "agents_done st1 = []" using s1(3) n1 by (simp add: st0_def)
  have m1: "meeting_turn be ?ps th host_id t st0 = (False, st1)"
    using s1(1) by (simp add: prod_eq_iff st1_def [symmetric] d1)
  \<comment> \<open>the second turn: the child \<open>a\<close>\<close>
  define st2 where "st2 = snd (meeting_turn be ?ps th host_id a st1)"
  have b2: "be (turn st1 + 1) (objs (m_agency st1) ! a) YOUR_TURN_PHRASE = Inr r2"
  proof -
    have n: "turn st1 + 1 = 2" by (simp add: u1)
    show ?thesis unfolding n by (rule t2 [rule_format])
  qed
  note s2 = meeting_turn_reply [of be st1 a r2 ag0 ?ps th host_id, OF b2 s1(5), folded st2_def]
  have u2: "turn st2 = 2" using s2(2) by (simp add: u1)
  have d2: "agents_done st2 = [ida]" using s2(3) r2 by (simp add: d1 ida)
  have m2: "meeting_turn be ?ps th host_id a st1 = (False, st2)"
    using s2(1) by (simp add: prod_eq_iff st2_def [symmetric] d2)
  \<comment> \<open>the third turn: the child \<open>b\<close>\<close>
  define st3 where "st3 = snd (meeting_turn be ?ps th host_id b st2)"
  have b3: "be (turn st2 + 1) (objs (m_agency st2) ! b) YOUR_TURN_PHRASE = Inr r3"
  proof -
    have n: "turn st2 + 1 = 3" by (simp add: u2)
    show ?thesis unfolding n by (rule t3 [rule_format])
  qed
  note s3 = meeting_turn_reply [of be st2 b r3 ag0 ?ps th host_id, OF b3 s2(5), folded st3_def]
  have u3: "turn st3 = 3" using s3(2) by (simp add: u2)
  have d3: "agents_done st3 = [idb, ida]" using s3(3) r3 d by (simp add: d2 idb)
  have m3: "meeting_turn be ?ps th host_id b st2 = (False, st3)"
    using s3(1) by (simp add: prod_eq_iff st3_def [symmetric] d3)
  have rd1: "meeting_round be ?ps th host_id ?ps st0 = st3"
    by (simp add: m1 m2 m3)
  \<comment> \<open>the fourth turn: the temporary host\<close>
  define st4 where "st4 = snd (meeting_turn be ?ps th host_id t st3)"
  have b4: "be (turn st3 + 1) (objs (m_agency st3) ! t) YOUR_TURN_PHRASE = Inr r4"
  proof -
    have n: "turn st3 + 1 = 4" by (simp add: u3)
    show ?thesis unfolding n by (rule t4 [rule_format])
  qed
  note s4 = meeting_turn_reply [of be st3 t r4 ag0 ?ps th host_id, OF b4 s3(5), folded st4_def]
  have u4: "turn st4 = 4" using s4(2) by (simp add: u3)
  have d4: "agents_done st4 = [th, idb, ida]" using s4(3) r4 d by (simp add: d3 idt)
  have m4: "meeting_turn be ?ps th host_id t st3 = (True, st4)"
    using s4(1) by (simp add: prod_eq_iff st4_def [symmetric] d4)
  have rd2: "meeting_round be ?ps th host_id ?ps st3 = st4"
    by (simp add: m4)
  have d0: "agents_done st0 = []" by (simp add: st0_def)
  have k1: "meeting_rounds (Suc k) be ?ps th host_id 6 st0 = meeting_rounds k be ?ps th host_id 6 st3"
    for k
    by (simp add: rd1 u3 d0 del: meeting_round.simps)
  have k2: "meeting_rounds (Suc k) be ?ps th host_id 6 st3 = meeting_rounds k be ?ps th host_id 6 st4"
    for k
    by (simp add: rd2 u4 d3 del: meeting_round.simps)
  have k3: "meeting_rounds k be ?ps th host_id 6 st4 = st4" for k
    by (cases k) (simp_all add: d4 del: meeting_round.simps)
  have n6: "nat 6 = Suc (Suc 4)" by simp
  have fin: "meeting_run be host_id ms = st4"
    unfolding meeting_run_def sel n6 th_def [symmetric] ag0_def [symmetric] st0_def [symmetric]
    by (simp only: k1 k2 k3)
  have ids4: "map log_agent_id (discussion_log st4) = [th, host_id, ida, idb, host_id]"
    by (simp add: s4(4) s3(4) s2(4) s1(4) l0 lt la lb)
  have msg4: "map message (discussion_log st4) =
      [''Meeting initialized with objective: '' @ objective,
       strip (data r1), strip (data r2), strip (data r3), strip (data r4)]"
    by (simp add: s4(4) s3(4) s2(4) s1(4) l0)
  have ne: "children (objs agency ! h) \<noteq> []" by (simp add: kids)
  have cm: "fst (call_meeting be agency host_id ctx_prompt objective 2) =
      Inr (''Meeting complete. Summary:'' @ nl @ nl @ join nl (map summary_line (discussion_log st4)))"
    using fin by (simp add: call_meeting_unfold [OF reg ne] meeting_finish_def Let_def ms_def)
  have "ms_max_rounds ms = 6
      \<and> turn (meeting_round be ?ps th host_id ?ps st0) = 3
      \<and> agents_done (meeting_round be ?ps th host_id ?ps st0) = [idb, ida]
      \<and> meeting_turn be ?ps th host_id t (meeting_round be ?ps th host_id ?ps st0) =
          (True, meeting_run be host_id ms)
      \<and> turn (meeting_run be host_id ms) = 4
      \<and> agents_done (meeting_run be host_id ms) = [th, idb, ida]
      \<and> map log_agent_id (discussion_log (meeting_run be host_id ms)) =
          [th, host_id, ida, idb, host_id]
      \<and> map message (discussion_log (meeting_run be host_id ms)) =
          [''Meeting initialized with objective: '' @ objective,
           strip (data r1), strip (data r2), strip (data r3), strip (data r4)]
      \<and> fst (call_meeting be agency host_id ctx_prompt objective 2) =
          Inr (''Meeting complete. Summary:'' @ nl @ nl
               @ join nl (map summary_line (discussion_log (meeting_run be host_id ms))))"
    unfolding fin rd1
    by (intro conjI) (rule sel(3) u3 d3 m4 u4 d4 ids4 msg4 cm)+
  then show ?thesis
    unfolding Let_def sel
    unfolding ms_def [symmetric] th_def [symmetric] sel ag0_def [symmetric] st0_def [symmetric]
      ida_def [symmetric] idb_def [symmetric] .
qed


text \<open>
  A backend that answers from a script: the run of turn \<open>t\<close> returns the \<open>t\<close>-th text, with
  the prompt and the text as its new messages, and raises when the script is over.
\<close>

definition scripted :: "string list \<Rightarrow> backend" where
  "scripted texts t x p =
     (if 0 < t \<and> t \<le> length texts
      then Inr \<lparr>data = texts ! (t - 1),
                new_messages = [ModelRequest [UserPromptPart p],
                                ModelResponse [TextPart (texts ! (t - 1))]]\<rparr>
      else Inl ''no answer'')"

theorem meeting_scenario_witness:
  "(let be = scripted [''Let us plan the release. '', ''I will test. READY_TO_MOVE_ON'',
                       ''I will write. READY_TO_MOVE_ON.'', ''Agreed: READY_TO_END_MEETING''];
        fin = meeting_run be ''0'' (meeting_setup family ''0'' 0 None ''plan'' 2)
    in map_of (agents family) ''0'' = Some 0
     \<and> children (objs family ! 0) = [(''1'', 1), (''2'', 2)]
     \<and> length (objs family) = 3
     \<and> agent_id (objs family ! 1) = ''1''
     \<and> agent_id (objs family ! 2) = ''2''
     \<and> \<not> is_ready (strip ''Let us plan the release. '')
     \<and> contains ''READY_TO_MOVE_ON'' ''I will test. READY_TO_MOVE_ON''
     \<and> contains ''READY_TO_MOVE_ON'' ''I will write. READY_TO_MOVE_ON.''
     \<and> contains ''READY_TO_END_MEETING'' ''Agreed: READY_TO_END_MEETING''
     \<and> turn fin = 4
     \<and> agents_done fin = [''0_temp'', ''2'', ''1'']
     \<and> map log_agent_id (discussion_log fin) = [''0_temp'', ''0'', ''1'', ''2'', ''0''])"
proof -
  define be where
    "be = scripted [''Let us plan the release. '', ''I will test. READY_TO_MOVE_ON'',
                    ''I will write. READY_TO_MOVE_ON.'', ''Agreed: READY_TO_END_MEETING'']"
  define r where "r = (\<lambda>s. \<lparr>data = s, new_messages =
      [ModelRequest [UserPromptPart YOUR_TURN_PHRASE], ModelResponse [TextPart s]]\<rparr>)"
  have reg: "map_of (agents family) ''0'' = Some 0" by (simp add: family_sel)
  have kids: "children (objs family ! 0) = [(''1'', 1), (''2'', 2)]" by (simp add: family_sel)
  have len: "length (objs family) = 3" by (simp add: family_sel)
  have i: "agent_id (objs family ! 1) = ''1''" "agent_id (objs family ! 2) = ''2''"
    by (simp_all add: family_def Agent_init_def)
  have t1: "\<forall>x. be 1 x YOUR_TURN_PHRASE = Inr (r ''Let us plan the release. '')"
    by (simp add: be_def scripted_def r_def)
  have t2: "\<forall>x. be 2 x YOUR_TURN_PHRASE = Inr (r ''I will test. READY_TO_MOVE_ON'')"
    by (simp add: be_def scripted_def r_def)
  have t3: "\<forall>x. be 3 x YOUR_TURN_PHRASE = Inr (r ''I will write. READY_TO_MOVE_ON.'')"
    by (simp add: be_def scripted_def r_def)
  have t4: "\<forall>x. be 4 x YOUR_TURN_PHRASE = Inr (r ''Agreed: READY_TO_END_MEETING'')"
    by (simp add: be_def scripted_def r_def)
  have n1: "\<not> is_ready (strip ''Let us plan the release. '')"
    by (simp add: is_ready_def strip_def upper_def upper_char_def is_space_def)
  have c2: "contains ''READY_TO_MOVE_ON'' ''I will test. READY_TO_MOVE_ON''" by simp
  have c3: "contains ''READY_TO_MOVE_ON'' ''I will write. READY_TO_MOVE_ON.''" by simp
  have c4: "contains ''READY_TO_END_MEETING'' ''Agreed: READY_TO_END_MEETING''" by simp
  have v: "1 < length (objs family)" "2 < length (objs family)" by (simp_all add: len)
  have d: "agent_id (objs family ! 1) \<noteq> agent_id (objs family ! 2)"
    "agent_id (objs family ! 1) \<noteq> ''0'' @ ''_temp''"
    "agent_id (objs family ! 2) \<noteq> ''0'' @ ''_temp''"
    unfolding i by simp_all
  from meeting_scenario [of family "''0''" 0 "''1''" 1 "''2''" 2 be
      "r ''Let us plan the release. ''" "r ''I will test. READY_TO_MOVE_ON''"
      "r ''I will write. READY_TO_MOVE_ON.''" "r ''Agreed: READY_TO_END_MEETING''" None "''plan''",
      OF reg kids v d t1 _ t2 _ t3 _ t4 _]
    n1 c2 c3 c4
  have "turn (meeting_run be ''0'' (meeting_setup family ''0'' 0 None ''plan'' 2)) = 4
     \<and> agents_done (meeting_run be ''0'' (meeting_setup family ''0'' 0 None ''plan'' 2)) =
         [''0_temp'', ''2'', ''1'']
     \<and> map log_agent_id (discussion_log (meeting_run be ''0''
           (meeting_setup family ''0'' 0 None ''plan'' 2))) = [''0_temp'', ''0'', ''1'', ''2'', ''0'']"
    unfolding i by (simp add: Let_def r_def)
  with reg kids len i n1 c2 c3 c4 show ?thesis
    unfolding Let_def be_def [symmetric] by simp
qed

section \<open>Removing an agent whose parent is recorded\<close>

text \<open>
  Where the \<^verbatim>\<open>parent_id\<close> is set, as in the agency \<open>family\<close>, the removal does what line 291
  and the loop of lines 295-298 are written for: removing the child \<^verbatim>\<open>"1"\<close> takes it out of
  the children of \<^verbatim>\<open>"0"\<close> and out of the registry, and removing the main agent \<^verbatim>\<open>"0"\<close>
  clears the \<^verbatim>\<open>parent_id\<close> of its two children, which stay registered.
\<close>

lemma remove_agent_helper_linked_child:
  "(let (r, ag) = remove_agent_helper family ''1''
    in r = Inr ''Removed agent with ID: 1''
     \<and> map fst (agents ag) = [''0'', ''2'']
     \<and> map fst (children (objs ag ! 0)) = [''2''])"
  by (simp add: family_def remove_agent_helper_def Let_def upd_obj_def Agent_init_def)

lemma remove_agent_helper_linked_parent:
  "(let (r, ag) = remove_agent_helper family ''0''
    in r = Inr ''Removed agent with ID: 0''
     \<and> map fst (agents ag) = [''1'', ''2'']
     \<and> parent_id (objs ag ! 1) = None
     \<and> parent_id (objs ag ! 2) = None)"
  by (simp add: family_def remove_agent_helper_def Let_def upd_obj_def Agent_init_def)

end
